theory Spec2Isabelle
  imports Complex_Main "HOL-Library.Log_Nat"
begin

section \<open>The multilingual summarizer: model of \<open>src/main.py\<close>\<close>

text \<open>
  The program is a command-line pipeline of four functions: \<open>load_text\<close> reads a
  \<open>.txt\<close> or \<open>.pdf\<close> file, \<open>detect_language\<close> classifies the text,
  \<open>summarize_text\<close> derives length bounds from a compression percentage and calls a
  pretrained model, and \<open>main\<close> parses the arguments, runs the three and prints or saves
  the summary. Each is embedded as a HOL function of the same name. What Python does
  implicitly is explicit here: an exception is an \<open>Inl\<close> result, the file system and the
  third-party services (language heuristic, PDF extraction, tokenizer and model) are fields
  of an \<open>environment\<close>, printed lines and calls to the model are returned as lists.
\<close>

subsection \<open>Exceptions\<close>

text \<open>
  The exceptions the program can meet. \<open>UnsupportedFormat\<close> is the \<open>ValueError\<close> that
  \<open>load_text\<close> raises for an unknown extension; \<open>LibraryError\<close> is whatever a
  third-party service raises, with its message.
\<close>

datatype py_error =
    FileNotFoundError
  | UnsupportedFormat
  | UnicodeDecodeError
  | UnicodeEncodeError
  | OverflowError
  | ZeroDivisionError
  | OSError
  | KeyError
  | IndexError
  | LibraryError string

subsection \<open>Double-precision arithmetic\<close>

text \<open>
  The length bounds are computed with Python floats: \<open>input_len * compression / 100\<close> is
  the true division of two integers and \<open>max_len * 0.7\<close> multiplies by the double nearest
  to 7/10. Both are correctly rounded IEEE 754 binary64 operations, and \<open>int\<close> then
  truncates toward zero. A finite double is represented by the rational it denotes;
  \<open>to_double\<close> rounds a rational to the nearest double, ties to even, with 53 significant
  bits, gradual underflow below \<open>2 powi (- 1022)\<close> and overflow from \<open>2 powi 1024\<close>.
\<close>

datatype py_float = Finite rat | Infinity

text \<open>The exponent \<open>e\<close> with \<open>2 powi e \<le> x < 2 powi (e + 1)\<close>, for positive \<open>x\<close>.\<close>

definition binary_exponent :: "rat \<Rightarrow> int" where
  "binary_exponent x =
     (case quotient_of x of (p, q) \<Rightarrow>
        let d = bitlen p - bitlen q in if 2 powi d \<le> x then d else d - 1)"

definition round_half_even :: "rat \<Rightarrow> int" where
  "round_half_even y =
     (let f = \<lfloor>y\<rfloor>; r = y - of_int f
      in if r < 1 / 2 then f
         else if 1 / 2 < r then f + 1
         else if even f then f else f + 1)"

text \<open>
  The spacing of the doubles around \<open>x\<close>, and \<open>x\<close> rounded to a multiple of it.
\<close>

definition quantum :: "rat \<Rightarrow> rat" where
  "quantum x = 2 powi (max (binary_exponent x) (- 1022) - 52)"

definition round_to_quantum :: "rat \<Rightarrow> rat" where
  "round_to_quantum x = of_int (round_half_even (x / quantum x)) * quantum x"

definition to_double :: "rat \<Rightarrow> py_float" where
  "to_double x =
     (if x = 0 then Finite 0
      else
        let r = round_to_quantum \<bar>x\<bar>
        in if 2 powi 1024 \<le> r then Infinity else Finite (sgn x * r))"

text \<open>
  \<open>a / b\<close> on two Python integers, \<open>float(m)\<close>, the product of two floats (which
  overflows to an infinity without raising) and \<open>int(x)\<close> on a float (which raises on an
  infinity).
\<close>

definition int_truediv :: "int \<Rightarrow> int \<Rightarrow> py_error + rat" where
  "int_truediv a b =
     (if b = 0 then Inl ZeroDivisionError
      else case to_double (of_int a / of_int b) of
             Infinity \<Rightarrow> Inl OverflowError
           | Finite r \<Rightarrow> Inr r)"

definition float_of_int :: "int \<Rightarrow> py_error + rat" where
  "float_of_int m =
     (case to_double (of_int m) of
        Infinity \<Rightarrow> Inl OverflowError
      | Finite r \<Rightarrow> Inr r)"

definition float_mul :: "rat \<Rightarrow> rat \<Rightarrow> py_float" where
  "float_mul x y = to_double (x * y)"

fun py_int :: "py_float \<Rightarrow> py_error + int" where
  "py_int (Finite x) = Inr (if 0 \<le> x then \<lfloor>x\<rfloor> else \<lceil>x\<rceil>)"
| "py_int Infinity = Inl OverflowError"

text \<open>The literal \<open>0.7\<close>: the double nearest to 7/10.\<close>

definition FLOAT_0_7 :: rat where
  "FLOAT_0_7 = round_to_quantum (7 / 10)"

subsection \<open>The length bounds of \<open>summarize_text\<close>\<close>

text \<open>
  Lines 68 to 71 of \<open>main.py\<close>, with \<open>input_len\<close> the number of tokens of the raw text:
  \<^verbatim>\<open>target_len = max(30, int(input_len * compression / 100))\<close>,
  \<^verbatim>\<open>max_len = min(512, target_len)\<close>,
  \<^verbatim>\<open>min_len = max(20, int(max_len * 0.7))\<close>.
  \<open>int_of_percentage\<close> and \<open>int_of_scaled\<close> are the two \<open>int(...)\<close> expressions.
\<close>

record bounds =
  target_len :: int
  max_len :: int
  min_len :: int

definition int_of_percentage :: "nat \<Rightarrow> int \<Rightarrow> py_error + int" where
  "int_of_percentage input_len compression =
     (case int_truediv (int input_len * compression) 100 of
        Inl e \<Rightarrow> Inl e
      | Inr quot \<Rightarrow> py_int (Finite quot))"

definition int_of_scaled :: "int \<Rightarrow> py_error + int" where
  "int_of_scaled maxl =
     (case float_of_int maxl of
        Inl e \<Rightarrow> Inl e
      | Inr fm \<Rightarrow> py_int (float_mul fm FLOAT_0_7))"

definition length_bounds :: "nat \<Rightarrow> int \<Rightarrow> py_error + bounds" where
  "length_bounds input_len compression =
     (case int_of_percentage input_len compression of
        Inl e \<Rightarrow> Inl e
      | Inr t \<Rightarrow>
          let target = max 30 t;
              maxl = min 512 target
          in (case int_of_scaled maxl of
                Inl e \<Rightarrow> Inl e
              | Inr m \<Rightarrow>
                  Inr \<lparr>target_len = target, max_len = maxl, min_len = max 20 m\<rparr>))"

subsection \<open>Reference definitions\<close>

text \<open>
  The values of \<open>max_len\<close> between 30 and 512 at which the double product
  \<open>max_len * 0.7\<close> is the double just below the integer \<open>7 * max_len / 10\<close>, so that
  \<open>int\<close> truncates it to one less (for example \<open>90 * 0.7 = 62.99999999999999\<close>).
\<close>

definition short_products :: "int set" where
  "short_products = {90, 170, 180, 330, 340, 350, 360}"

text \<open>
  The length bounds as the specification words them, with \<open>round\<close> in place of the
  truncating \<open>int\<close> of the code and with exact rational arithmetic.
\<close>

definition spec_length_bounds :: "nat \<Rightarrow> int \<Rightarrow> bounds" where
  "spec_length_bounds input_token_count compression =
     (let target = max 30 (round (of_int (int input_token_count * compression) / (100 :: rat)));
          maxl = min 512 target;
          minl = max 20 (round (of_int maxl * (7 / 10 :: rat)))
      in \<lparr>target_len = target, max_len = maxl, min_len = minl\<rparr>)"

text \<open>
  The integer truncation of \<open>0.7 * max_len\<close> in exact arithmetic, as the claim about
  \<open>min_len\<close> words it.
\<close>

definition spec_truncation :: "int \<Rightarrow> int" where
  "spec_truncation maxl =
     (let x = (7 / 10 :: rat) * of_int maxl in if 0 \<le> x then \<lfloor>x\<rfloor> else \<lceil>x\<rceil>)"

subsection \<open>Strings\<close>

text \<open>
  A Python \<open>str\<close> is a sequence of Unicode code points and the content of a file is a
  sequence of bytes; both are lists of numbers. \<open>py_isspace\<close> is the whitespace of
  \<open>str.strip()\<close>: the characters whose Unicode bidirectional class is WS, B or S or whose
  category is Zs. \<open>py_lower\<close> lower-cases the ASCII letters, which is all that
  \<open>str.lower()\<close> does to a test against \<open>.txt\<close> or \<open>.pdf\<close>: no other code point
  lower-cases to one of their characters.
\<close>

type_synonym pystr = "nat list"

type_synonym bytes = "nat list"

definition py_isspace :: "nat \<Rightarrow> bool" where
  "py_isspace c \<longleftrightarrow>
     (9 \<le> c \<and> c \<le> 13) \<or> (28 \<le> c \<and> c \<le> 32) \<or> c = 133 \<or> c = 160 \<or> c = 5760
     \<or> (8192 \<le> c \<and> c \<le> 8202) \<or> c = 8232 \<or> c = 8233 \<or> c = 8239 \<or> c = 8287
     \<or> c = 12288"

definition py_strip :: "pystr \<Rightarrow> pystr" where
  "py_strip s = rev (dropWhile py_isspace (rev (dropWhile py_isspace s)))"

definition py_lower :: "pystr \<Rightarrow> pystr" where
  "py_lower s = map (\<lambda>c. if 65 \<le> c \<and> c \<le> 90 then c + 32 else c) s"

definition py_endswith :: "pystr \<Rightarrow> pystr \<Rightarrow> bool" where
  "py_endswith s suffix \<longleftrightarrow>
     length suffix \<le> length s \<and> drop (length s - length suffix) s = suffix"

text \<open>
  The string literals of the program, as code points: \<open>'.txt'\<close>, \<open>'.pdf'\<close>,
  \<open>'auto'\<close>, \<open>'en'\<close>, \<open>'ru'\<close>, \<open>'de'\<close>, the names \<open>english\<close>, \<open>russian\<close>
  and \<open>german\<close> of \<open>LANG_MAP\<close>, and the Russian indicator of empty text (two words,
  Cyrillic) that \<open>summarize_text\<close> returns.
\<close>

definition DOT_TXT :: pystr where
  "DOT_TXT = [46, 116, 120, 116]"

definition DOT_PDF :: pystr where
  "DOT_PDF = [46, 112, 100, 102]"

definition LANG_AUTO :: pystr where
  "LANG_AUTO = [97, 117, 116, 111]"

definition LANG_EN :: pystr where
  "LANG_EN = [101, 110]"

definition LANG_RU :: pystr where
  "LANG_RU = [114, 117]"

definition LANG_DE :: pystr where
  "LANG_DE = [100, 101]"

definition SUPPORTED_LANGS :: "pystr set" where
  "SUPPORTED_LANGS = {LANG_EN, LANG_RU, LANG_DE}"

definition LANG_MAP :: "pystr \<rightharpoonup> pystr" where
  "LANG_MAP = [LANG_EN \<mapsto> [101, 110, 103, 108, 105, 115, 104],
               LANG_RU \<mapsto> [114, 117, 115, 115, 105, 97, 110],
               LANG_DE \<mapsto> [103, 101, 114, 109, 97, 110]]"

definition EMPTY_TEXT :: pystr where
  "EMPTY_TEXT = [1055, 1091, 1089, 1090, 1086, 1081, 32, 1090, 1077, 1082, 1089, 1090]"

subsection \<open>Text-mode files: UTF-8 and newline translation\<close>

text \<open>
  \<open>open(path, 'r', encoding='utf-8').read()\<close> decodes the bytes strictly (no overlong
  form, no surrogate, nothing above U+10FFFF) and then, the \<open>newline\<close> argument being left
  at its default, replaces every CR LF and every lone CR by LF. \<open>utf8_first\<close> decodes
  the code point at the head of a byte sequence and gives the number of bytes it took.
  Writing to a file opened with \<open>'w'\<close> replaces each LF by the platform's line separator
  and encodes the result.
\<close>

definition continuation :: "nat \<Rightarrow> bool" where
  "continuation b \<longleftrightarrow> 128 \<le> b \<and> b \<le> 191"

definition utf8_first :: "bytes \<Rightarrow> (nat \<times> nat) option" where
  "utf8_first bs =
     (case bs of
        [] \<Rightarrow> None
      | b0 # r0 \<Rightarrow>
          if b0 < 128 then Some (b0, 1)
          else if 194 \<le> b0 \<and> b0 \<le> 223 then
            (case r0 of
               b1 # _ \<Rightarrow>
                 if continuation b1 then Some ((b0 - 192) * 64 + (b1 - 128), 2) else None
             | _ \<Rightarrow> None)
          else if 224 \<le> b0 \<and> b0 \<le> 239 then
            (case r0 of
               b1 # b2 # _ \<Rightarrow>
                 let cp = (b0 - 224) * 4096 + (b1 - 128) * 64 + (b2 - 128)
                 in if continuation b1 \<and> continuation b2 \<and> 2048 \<le> cp
                       \<and> \<not> (55296 \<le> cp \<and> cp \<le> 57343)
                    then Some (cp, 3) else None
             | _ \<Rightarrow> None)
          else if 240 \<le> b0 \<and> b0 \<le> 244 then
            (case r0 of
               b1 # b2 # b3 # _ \<Rightarrow>
                 let cp = (b0 - 240) * 262144 + (b1 - 128) * 4096 + (b2 - 128) * 64
                            + (b3 - 128)
                 in if continuation b1 \<and> continuation b2 \<and> continuation b3
                       \<and> 65536 \<le> cp \<and> cp \<le> 1114111
                    then Some (cp, 4) else None
             | _ \<Rightarrow> None)
          else None)"

function utf8_decode :: "bytes \<Rightarrow> pystr option" where
  "utf8_decode bs =
     (if bs = [] then Some []
      else case utf8_first bs of
             None \<Rightarrow> None
           | Some (cp, n) \<Rightarrow>
               if 0 < n \<and> n \<le> length bs
               then map_option ((#) cp) (utf8_decode (drop n bs))
               else None)"
  by pat_completeness auto
termination
  by (relation "measure length") auto

declare utf8_decode.simps [simp del]

definition utf8_encode_char :: "nat \<Rightarrow> bytes option" where
  "utf8_encode_char c =
     (if c < 128 then Some [c]
      else if c < 2048 then Some [192 + c div 64, 128 + c mod 64]
      else if c < 65536 then
        (if 55296 \<le> c \<and> c \<le> 57343 then None
         else Some [224 + c div 4096, 128 + c div 64 mod 64, 128 + c mod 64])
      else if c \<le> 1114111 then
        Some [240 + c div 262144, 128 + c div 4096 mod 64, 128 + c div 64 mod 64, 128 + c mod 64]
      else None)"

fun utf8_encode :: "pystr \<Rightarrow> bytes option" where
  "utf8_encode [] = Some []"
| "utf8_encode (c # cs) =
     (case utf8_encode_char c of
        None \<Rightarrow> None
      | Some bs \<Rightarrow> map_option ((@) bs) (utf8_encode cs))"

fun universal_newlines :: "pystr \<Rightarrow> pystr" where
  "universal_newlines [] = []"
| "universal_newlines [c] = (if c = 13 then [10] else [c])"
| "universal_newlines (c # d # cs) =
     (if c = 13 \<and> d = 10 then 10 # universal_newlines cs
      else if c = 13 then 10 # universal_newlines (d # cs)
      else c # universal_newlines (d # cs))"

definition write_newlines :: "pystr \<Rightarrow> pystr \<Rightarrow> pystr" where
  "write_newlines sep s = concat (map (\<lambda>c. if c = 10 then sep else [c]) s)"

subsection \<open>Printed lines\<close>

text \<open>
  What the program prints, one constructor for each \<open>print\<close> of the source with the
  values it formats: the three error messages of \<open>main\<close>, the warning of
  \<open>detect_language\<close>, the language, compression and progress lines, the rule of 60 equals
  signs, the title, the summary and the confirmation of saving. \<open>HelpText\<close> is the help
  that the argument parser prints for \<open>-h\<close>. \<open>UsageError\<close> is the usage message of the
  argument parser and \<open>Traceback\<close> the report of an uncaught exception; these two go to
  the standard error stream, which replaces what it cannot encode and so never fails.
\<close>

datatype out_line =
    LoadErrorMsg py_error
  | EmptyFileMsg
  | UnsupportedLangMsg pystr
  | FallbackWarning pystr
  | LanguageMsg pystr pystr
  | CompressionMsg int
  | ProgressMsg
  | BannerRule
  | BannerTitle
  | SummaryText pystr
  | SavedMsg pystr
  | HelpText
  | UsageError
  | Traceback py_error

subsection \<open>The file system and the external services\<close>

text \<open>
  A file system maps a path to a regular file with its content, or to an entry that is not
  a regular file (a directory). The environment holds the file system; \<open>cannot_open\<close>,
  which gives for a path the error with which the operating system refuses to open it for
  writing (a parent directory that is missing, a directory or a file that may not be
  written), if it refuses; the line separator \<open>os.linesep\<close>; \<open>stdout_encodes\<close>, which
  says whether the encoding of the standard output has every character of a line; and the
  services the program imports: \<open>langdetect.detect\<close>, the pages of a PDF with the text
  \<open>pdfplumber\<close> extracts from each (\<open>None\<close> where it extracts none), and the tokenizer
  and model of the \<open>transformers\<close> library. A service returns a result or the message of
  the exception it raises.
\<close>

datatype fs_entry = RegularFile bytes | OtherEntry

type_synonym filesystem = "pystr \<rightharpoonup> fs_entry"

record environment =
  files :: filesystem
  cannot_open :: "pystr \<Rightarrow> py_error option"
  linesep :: pystr
  stdout_encodes :: "out_line \<Rightarrow> bool"
  detect :: "pystr \<Rightarrow> string + pystr"
  pdf_pages :: "bytes \<Rightarrow> string + pystr option list"
  load_tokenizer :: "string option"
  load_model :: "string option"
  encode_input :: "pystr \<Rightarrow> nat \<Rightarrow> string + nat list"
  tokenize :: "pystr \<Rightarrow> string + pystr list"
  generate :: "nat list \<Rightarrow> int \<Rightarrow> int \<Rightarrow> string + nat list list"
  decode :: "nat list \<Rightarrow> string + pystr"

text \<open>
  \<open>os.path.isfile\<close>, reading a file, and writing one in text mode:
  \<^verbatim>\<open>with open(path, 'w', encoding='utf-8') as f: f.write(s)\<close>. Opening fails on the
  empty path, on a directory and where the operating system refuses; once the file is open
  it is empty, and a string that cannot be encoded leaves it so.
\<close>

definition isfile :: "filesystem \<Rightarrow> pystr \<Rightarrow> bool" where
  "isfile fs path = (case fs path of Some (RegularFile _) \<Rightarrow> True | _ \<Rightarrow> False)"

definition read_bytes :: "filesystem \<Rightarrow> pystr \<Rightarrow> py_error + bytes" where
  "read_bytes fs path =
     (case fs path of
        Some (RegularFile content) \<Rightarrow> Inr content
      | Some OtherEntry \<Rightarrow> Inl OSError
      | None \<Rightarrow> Inl FileNotFoundError)"

definition read_text :: "filesystem \<Rightarrow> pystr \<Rightarrow> py_error + pystr" where
  "read_text fs path =
     (case read_bytes fs path of
        Inl e \<Rightarrow> Inl e
      | Inr content \<Rightarrow>
          (case utf8_decode content of
             None \<Rightarrow> Inl UnicodeDecodeError
           | Some s \<Rightarrow> Inr (universal_newlines s)))"

definition write_text :: "environment \<Rightarrow> pystr \<Rightarrow> pystr \<Rightarrow> filesystem \<times> py_error option" where
  "write_text env path s =
     (if path = [] then (files env, Some FileNotFoundError)
      else if files env path = Some OtherEntry then (files env, Some OSError)
      else case cannot_open env path of
             Some e \<Rightarrow> (files env, Some e)
           | None \<Rightarrow>
               (case utf8_encode (write_newlines (linesep env) s) of
                  None \<Rightarrow> ((files env)(path \<mapsto> RegularFile []), Some UnicodeEncodeError)
                | Some content \<Rightarrow> ((files env)(path \<mapsto> RegularFile content), None)))"

subsection \<open>Printing\<close>

text \<open>
  \<open>print\<close> encodes the line for the standard output and raises \<open>UnicodeEncodeError\<close>
  when the encoding lacks one of its characters; nothing of that line is then shown.
  \<open>print_lines\<close> is a sequence of \<open>print\<close> calls: it gives the lines shown and the
  exception that ended the sequence, if one did.
\<close>

fun print_lines :: "environment \<Rightarrow> out_line list \<Rightarrow> out_line list \<times> py_error option" where
  "print_lines env [] = ([], None)"
| "print_lines env (line # rest) =
     (if stdout_encodes env line
      then (case print_lines env rest of (shown, failure) \<Rightarrow> (line # shown, failure))
      else ([], Some UnicodeEncodeError))"

subsection \<open>Text Loader\<close>

text \<open>
  \<open>load_text\<close>, lines 19 to 34: the existence check, then the extension. The loop over
  the pages of a PDF appends \<open>page.extract_text() or ""\<close> to the text.
\<close>

definition load_text :: "environment \<Rightarrow> pystr \<Rightarrow> py_error + pystr" where
  "load_text env file_path =
     (if \<not> isfile (files env) file_path then Inl FileNotFoundError
      else if py_endswith (py_lower file_path) DOT_TXT then read_text (files env) file_path
      else if py_endswith (py_lower file_path) DOT_PDF then
        (case read_bytes (files env) file_path of
           Inl e \<Rightarrow> Inl e
         | Inr content \<Rightarrow>
             (case pdf_pages env content of
                Inl msg \<Rightarrow> Inl (LibraryError msg)
              | Inr pages \<Rightarrow>
                  Inr (foldl (\<lambda>text page. text @ (case page of None \<Rightarrow> [] | Some t \<Rightarrow> t))
                         [] pages)))
      else Inl UnsupportedFormat)"

subsection \<open>Language Detector\<close>

text \<open>
  \<open>detect_language\<close>, lines 36 to 46. The bare \<open>except\<close> turns every failure of the
  heuristic into \<open>en\<close>. The warning of line 44 is printed outside the \<open>try\<close>, so an
  exception of that \<open>print\<close> leaves the function.
\<close>

definition detect_language :: "environment \<Rightarrow> pystr \<Rightarrow> out_line list \<times> (py_error + pystr)" where
  "detect_language env text =
     (let lang = (case detect env text of Inl _ \<Rightarrow> LANG_EN | Inr l \<Rightarrow> l)
      in if lang \<notin> SUPPORTED_LANGS then
           (case print_lines env [FallbackWarning lang] of
              (shown, Some e) \<Rightarrow> (shown, Inl e)
            | (shown, None) \<Rightarrow> (shown, Inr LANG_EN))
         else ([], Inr lang))"

subsection \<open>Summarizer\<close>

text \<open>
  \<open>summarize_text\<close>, lines 48 to 85. Every call to the tokenizer or the model is recorded
  as an event, so that a result comes with the trace of the calls made for it. \<open>and_then\<close>
  sequences two steps: an exception ends the run, and the traces are appended.
\<close>

datatype event =
    LoadTokenizer
  | LoadModel
  | EncodeInput nat
  | Tokenize
  | Generate int int
  | Decode

type_synonym 'a traced = "event list \<times> (py_error + 'a)"

definition call :: "event \<Rightarrow> string + 'a \<Rightarrow> 'a traced" where
  "call ev r = ([ev], case r of Inl msg \<Rightarrow> Inl (LibraryError msg) | Inr x \<Rightarrow> Inr x)"

definition pure :: "py_error + 'a \<Rightarrow> 'a traced" where
  "pure r = ([], r)"

definition and_then :: "'a traced \<Rightarrow> ('a \<Rightarrow> 'b traced) \<Rightarrow> 'b traced" where
  "and_then m f =
     (case m of
        (evs, Inl e) \<Rightarrow> (evs, Inl e)
      | (evs, Inr x) \<Rightarrow> (case f x of (evs', r) \<Rightarrow> (evs @ evs', r)))"

definition first_output :: "nat list list \<Rightarrow> py_error + nat list" where
  "first_output outputs = (case outputs of [] \<Rightarrow> Inl IndexError | out # _ \<Rightarrow> Inr out)"

definition summarize_text :: "environment \<Rightarrow> pystr \<Rightarrow> pystr \<Rightarrow> int \<Rightarrow> nat \<Rightarrow> pystr traced" where
  "summarize_text env text lang compression max_input_length =
     (if py_strip text = [] then ([], Inr EMPTY_TEXT)
      else
        and_then (call LoadTokenizer (case load_tokenizer env of Some msg \<Rightarrow> Inl msg | None \<Rightarrow> Inr ()))
          (\<lambda>_.
        and_then (call LoadModel (case load_model env of Some msg \<Rightarrow> Inl msg | None \<Rightarrow> Inr ()))
          (\<lambda>_.
        and_then (call (EncodeInput max_input_length) (encode_input env text max_input_length))
          (\<lambda>inputs.
        and_then (call Tokenize (tokenize env text))
          (\<lambda>tokens.
        and_then (pure (length_bounds (length tokens) compression))
          (\<lambda>b.
        and_then (call (Generate (max_len b) (min_len b))
                    (generate env inputs (max_len b) (min_len b)))
          (\<lambda>outputs.
        and_then (pure (first_output outputs))
          (\<lambda>out.
        call Decode (decode env out)))))))))"

subsection \<open>CLI Driver\<close>

text \<open>
  The command line is the sequence of its items in the order given: an option with its
  value, the help flag, an option that lacks its value, or an argument that belongs to no
  option. The text given to \<open>--compression\<close> is represented by what \<open>int\<close> makes of it,
  \<open>None\<close> when it is not an integer.
\<close>

datatype cli_item =
    HelpFlag
  | InputOpt pystr
  | LanguageOpt pystr
  | CompressionOpt "int option"
  | OutputOpt pystr
  | MissingValue
  | Unrecognized

type_synonym argv = "cli_item list"

record args =
  arg_input :: pystr
  arg_language :: pystr
  arg_compression :: int
  arg_output :: "pystr option"

text \<open>
  The parser that lines 88 to 96 build reads the items from left to right into a
  namespace that starts with the defaults. The help flag prints the help and ends the
  process at once, whatever follows it. A language that is not one of the four choices, a
  compression that is not an integer or not one of the three choices and an option without
  its value are errors where they stand. An argument that belongs to no option, and a
  missing \<open>--input\<close>, are errors once every item has been read. A later occurrence of an
  option replaces an earlier one.
\<close>

record namespace =
  ns_input :: "pystr option"
  ns_language :: pystr
  ns_compression :: int
  ns_output :: "pystr option"
  ns_extras :: bool

datatype parse_result = Parsed args | HelpRequested | UsageFailure

fun parse_items :: "namespace \<Rightarrow> cli_item list \<Rightarrow> parse_result" where
  "parse_items ns [] =
     (case ns_input ns of
        None \<Rightarrow> UsageFailure
      | Some inp \<Rightarrow>
          if ns_extras ns then UsageFailure
          else Parsed \<lparr>arg_input = inp, arg_language = ns_language ns,
                       arg_compression = ns_compression ns, arg_output = ns_output ns\<rparr>)"
| "parse_items ns (HelpFlag # rest) = HelpRequested"
| "parse_items ns (InputOpt path # rest) = parse_items (ns\<lparr>ns_input := Some path\<rparr>) rest"
| "parse_items ns (LanguageOpt l # rest) =
     (if l \<in> {LANG_AUTO, LANG_EN, LANG_RU, LANG_DE}
      then parse_items (ns\<lparr>ns_language := l\<rparr>) rest
      else UsageFailure)"
| "parse_items ns (CompressionOpt None # rest) = UsageFailure"
| "parse_items ns (CompressionOpt (Some c) # rest) =
     (if c \<in> {20, 30, 50}
      then parse_items (ns\<lparr>ns_compression := c\<rparr>) rest
      else UsageFailure)"
| "parse_items ns (OutputOpt path # rest) = parse_items (ns\<lparr>ns_output := Some path\<rparr>) rest"
| "parse_items ns (MissingValue # rest) = UsageFailure"
| "parse_items ns (Unrecognized # rest) = parse_items (ns\<lparr>ns_extras := True\<rparr>) rest"

definition parse_args :: "argv \<Rightarrow> parse_result" where
  "parse_args a =
     parse_items \<lparr>ns_input = None, ns_language = LANG_AUTO, ns_compression = 30,
                   ns_output = None, ns_extras = False\<rparr> a"

text \<open>
  The outcome of a run: the exit status of the process, the lines printed, the file system
  it leaves and the calls made to the tokenizer and the model. An exception that nothing
  catches ends the process with a traceback and status 1; \<open>report_failure\<close> is a
  \<open>print\<close> followed by \<open>sys.exit(1)\<close>.
\<close>

record outcome =
  exit_code :: int
  printed :: "out_line list"
  files_after :: filesystem
  events :: "event list"

definition uncaught :: "out_line list \<Rightarrow> filesystem \<Rightarrow> event list \<Rightarrow> py_error \<Rightarrow> outcome" where
  "uncaught shown fs evs e =
     \<lparr>exit_code = 1, printed = shown @ [Traceback e], files_after = fs, events = evs\<rparr>"

definition report_failure :: "environment \<Rightarrow> out_line list \<Rightarrow> out_line \<Rightarrow> outcome" where
  "report_failure env shown line =
     (case print_lines env [line] of
        (new, Some e) \<Rightarrow> uncaught (shown @ new) (files env) [] e
      | (new, None) \<Rightarrow>
          \<lparr>exit_code = 1, printed = shown @ new, files_after = files env, events = []\<rparr>)"

text \<open>
  \<open>main\<close> follows lines 96 to 136. Its step 2 (the language, lines 110 to 113) is
  \<open>resolve_language\<close>; lines 119 to 130, which print the language and the compression,
  call the summarizer and display the summary, are \<open>summarize_and_print\<close>; step 5
  (saving, lines 133 to 136) is \<open>save_summary\<close>, where \<open>if args.output\<close> is false for
  an absent path and for the empty string.
\<close>

definition resolve_language ::
    "environment \<Rightarrow> args \<Rightarrow> pystr \<Rightarrow> out_line list \<times> (py_error + pystr)" where
  "resolve_language env args text =
     (if arg_language args = LANG_AUTO then detect_language env text
      else ([], Inr (arg_language args)))"

definition save_summary ::
    "environment \<Rightarrow> args \<Rightarrow> out_line list \<Rightarrow> event list \<Rightarrow> pystr \<Rightarrow> outcome" where
  "save_summary env args shown evs summary =
     (case arg_output args of
        None \<Rightarrow>
          \<lparr>exit_code = 0, printed = shown, files_after = files env, events = evs\<rparr>
      | Some path \<Rightarrow>
          if path = [] then
            \<lparr>exit_code = 0, printed = shown, files_after = files env, events = evs\<rparr>
          else
            (case write_text env path summary of
               (fs, Some e) \<Rightarrow> uncaught shown fs evs e
             | (fs, None) \<Rightarrow>
                 (case print_lines env [SavedMsg path] of
                    (new, Some e) \<Rightarrow> uncaught (shown @ new) fs evs e
                  | (new, None) \<Rightarrow>
                      \<lparr>exit_code = 0, printed = shown @ new, files_after = fs,
                         events = evs\<rparr>)))"

definition summarize_and_print ::
    "environment \<Rightarrow> args \<Rightarrow> pystr \<Rightarrow> out_line list \<Rightarrow> pystr \<Rightarrow> outcome" where
  "summarize_and_print env args text warned lang =
     (case LANG_MAP lang of
        None \<Rightarrow> uncaught warned (files env) [] KeyError
      | Some name \<Rightarrow>
          (case print_lines env [LanguageMsg name lang,
                                 CompressionMsg (arg_compression args), ProgressMsg] of
             (progress, Some e) \<Rightarrow> uncaught (warned @ progress) (files env) [] e
           | (progress, None) \<Rightarrow>
               (case summarize_text env text lang (arg_compression args) 1024 of
                  (evs, Inl e) \<Rightarrow> uncaught (warned @ progress) (files env) evs e
                | (evs, Inr summary) \<Rightarrow>
                    (case print_lines env [BannerRule, BannerTitle, BannerRule,
                                           SummaryText summary] of
                       (display, Some e) \<Rightarrow>
                         uncaught (warned @ progress @ display) (files env) evs e
                     | (display, None) \<Rightarrow>
                         save_summary env args (warned @ progress @ display) evs summary))))"

definition main :: "environment \<Rightarrow> argv \<Rightarrow> outcome" where
  "main env a =
     (case parse_args a of
        UsageFailure \<Rightarrow>
          \<lparr>exit_code = 2, printed = [UsageError], files_after = files env, events = []\<rparr>
      | HelpRequested \<Rightarrow>
          (case print_lines env [HelpText] of
             (shown, Some e) \<Rightarrow> uncaught shown (files env) [] e
           | (shown, None) \<Rightarrow>
               \<lparr>exit_code = 0, printed = shown, files_after = files env, events = []\<rparr>)
      | Parsed args \<Rightarrow>
          (case load_text env (arg_input args) of
             Inl e \<Rightarrow> report_failure env [] (LoadErrorMsg e)
           | Inr text \<Rightarrow>
               if py_strip text = [] then report_failure env [] EmptyFileMsg
               else
                 (case resolve_language env args text of
                    (warned, Inl e) \<Rightarrow> uncaught warned (files env) [] e
                  | (warned, Inr lang) \<Rightarrow>
                      if lang \<notin> SUPPORTED_LANGS
                      then report_failure env warned (UnsupportedLangMsg lang)
                      else summarize_and_print env args text warned lang)))"

subsection \<open>Example environments\<close>

text \<open>
  A standard output encoded in ASCII: of the lines of the program it has only the rule of
  equals signs and a summary of ASCII characters, every other line holding a pictograph or
  Cyrillic letters.
\<close>

definition ascii_stdout :: "out_line \<Rightarrow> bool" where
  "ascii_stdout line =
     (case line of
        BannerRule \<Rightarrow> True
      | SummaryText s \<Rightarrow> list_all (\<lambda>c. c < 128) s
      | _ \<Rightarrow> False)"

text \<open>
  The services of the repository's tests: the tokenizer gives 100 tokens, generation gives
  one sequence and decoding gives the fixed summary \<open>X\<close>. The language heuristic fails
  on blank text, answers \<open>fr\<close> for the text \<open>Bonjour\<close> and \<open>en\<close> otherwise. Lines end
  in LF as on a POSIX system, the standard output can show every line and every file may
  be opened for writing.
\<close>

definition BONJOUR :: pystr where
  "BONJOUR = [66, 111, 110, 106, 111, 117, 114]"

definition mock_environment :: "filesystem \<Rightarrow> environment" where
  "mock_environment fs =
     \<lparr>files = fs, cannot_open = (\<lambda>path. None), linesep = [10],
      stdout_encodes = (\<lambda>line. True),
      detect = (\<lambda>text. if py_strip text = [] then Inl ''No features in text.''
                       else if text = BONJOUR then Inr [102, 114]
                       else Inr LANG_EN),
      pdf_pages = (\<lambda>content. Inr []),
      load_tokenizer = None, load_model = None,
      encode_input = (\<lambda>text budget. Inr []),
      tokenize = (\<lambda>text. Inr (replicate 100 [116])),
      generate = (\<lambda>inputs maxl minl. Inr [[0]]),
      decode = (\<lambda>out. Inr [88])\<rparr>"

text \<open>
  A file system with \<open>a.txt\<close> holding the bytes of \<open>a CR LF b\<close>, \<open>b.TXT\<close> holding the
  UTF-8 bytes of a Cyrillic letter and a line feed, \<open>c.md\<close>, a directory \<open>d.txt\<close> and
  \<open>e.txt\<close> holding a space and a line feed.
\<close>

definition sample_files :: filesystem where
  "sample_files =
     [[97, 46, 116, 120, 116] \<mapsto> RegularFile [97, 13, 10, 98],
      [98, 46, 84, 88, 84] \<mapsto> RegularFile [208, 159, 10],
      [99, 46, 109, 100] \<mapsto> RegularFile [35],
      [100, 46, 116, 120, 116] \<mapsto> OtherEntry,
      [101, 46, 116, 120, 116] \<mapsto> RegularFile [32, 10]]"

text \<open>
  The same services on a system whose line separator is CR LF, with a summary of two
  lines; and on a system whose standard output is encoded in ASCII.
\<close>

definition crlf_environment :: "filesystem \<Rightarrow> environment" where
  "crlf_environment fs =
     (mock_environment fs)\<lparr>linesep := [13, 10], decode := (\<lambda>out. Inr [97, 10, 98])\<rparr>"

definition ascii_environment :: "filesystem \<Rightarrow> environment" where
  "ascii_environment fs = (mock_environment fs)\<lparr>stdout_encodes := ascii_stdout\<rparr>"

section \<open>Rounding to double precision\<close>

subsection \<open>The binary exponent\<close>

lemma quotient_of_pos:
  assumes "quotient_of x = (p, q)" "0 < x"
  shows "0 < p" "0 < q" "x = of_int p / of_int q"
proof -
  show q: "0 < q" using assms(1) by (rule quotient_of_denom_pos)
  show x: "x = of_int p / of_int q" using assms(1) by (rule quotient_of_div)
  show "0 < p" using assms(2) q x by (simp add: zero_less_divide_iff)
qed

lemma bitlen_powi_bounds:
  assumes "0 < (p::int)"
  shows "(2::rat) powi (bitlen p - 1) \<le> of_int p" "of_int p < (2::rat) powi (bitlen p)"
proof -
  from bitlen_bounds[OF assms] have a: "2 ^ nat (bitlen p - 1) \<le> p" and b: "p < 2 ^ nat (bitlen p)"
    by auto
  have pos: "1 \<le> bitlen p" using assms by (auto simp: bitlen_alt_def)
  have "(of_int (2 ^ nat (bitlen p - 1)) :: rat) \<le> of_int p" using a by (simp only: of_int_le_iff)
  then show "(2::rat) powi (bitlen p - 1) \<le> of_int p" using pos by (simp add: power_int_def)
  have "(of_int p :: rat) < of_int (2 ^ nat (bitlen p))" using b by (simp only: of_int_less_iff)
  then show "of_int p < (2::rat) powi (bitlen p)" using pos by (simp add: power_int_def)
qed

lemma powi2_less_iff: "(2::rat) powi a < 2 powi b \<longleftrightarrow> a < b"
proof
  assume l: "(2::rat) powi a < 2 powi b"
  show "a < b"
  proof (rule ccontr)
    assume "\<not> a < b"
    then have "b \<le> a" by simp
    then have "(2::rat) powi b \<le> 2 powi a" by (intro power_int_increasing) simp_all
    with l show False by simp
  qed
next
  assume "a < b"
  then show "(2::rat) powi a < 2 powi b" by (intro power_int_strict_increasing) simp_all
qed

lemma powi2_le_iff: "(2::rat) powi a \<le> 2 powi b \<longleftrightarrow> a \<le> b"
  using powi2_less_iff[of b a] by (auto simp: not_less[symmetric])

lemma binary_exponent_bounds:
  assumes "0 < x"
  shows "2 powi (binary_exponent x) \<le> x" "x < 2 powi (binary_exponent x + 1)"
proof -
  obtain p q where pq: "quotient_of x = (p, q)" by (cases "quotient_of x")
  note f = quotient_of_pos[OF pq assms]
  define d where "d = bitlen p - bitlen q"
  have qpos: "(0::rat) < of_int q" using f(2) by simp
  have up: "x < 2 powi (d + 1)"
  proof -
    have "of_int p < (2::rat) powi (bitlen p)" by (rule bitlen_powi_bounds(2)[OF f(1)])
    also have "\<dots> = 2 powi (d + 1) * 2 powi (bitlen q - 1)"
      by (simp add: d_def power_int_add[symmetric])
    also have "\<dots> \<le> 2 powi (d + 1) * of_int q"
      using bitlen_powi_bounds(1)[OF f(2)] by (simp add: mult_left_mono)
    finally show ?thesis using qpos f(3) by (simp add: pos_divide_less_eq)
  qed
  have lo: "2 powi (d - 1) \<le> x"
  proof -
    have "2 powi (d - 1) * of_int q \<le> 2 powi (d - 1) * (2::rat) powi (bitlen q)"
      using bitlen_powi_bounds(2)[OF f(2)] by (simp add: mult_left_mono)
    also have "\<dots> = 2 powi (bitlen p - 1)"
      by (simp add: d_def power_int_add[symmetric])
    also have "\<dots> \<le> of_int p" by (rule bitlen_powi_bounds(1)[OF f(1)])
    finally show ?thesis using qpos f(3) by (simp add: pos_le_divide_eq)
  qed
  have be: "binary_exponent x = (if 2 powi d \<le> x then d else d - 1)"
    by (simp add: binary_exponent_def pq d_def Let_def)
  show "2 powi (binary_exponent x) \<le> x" using lo by (simp add: be)
  show "x < 2 powi (binary_exponent x + 1)" using up by (auto simp add: be not_le)
qed

lemma binary_exponent_unique:
  assumes "2 powi e \<le> x" "x < 2 powi (e + 1)"
  shows "binary_exponent x = e"
proof -
  have "(0::rat) < 2 powi e" by simp
  then have pos: "0 < x" using assms(1) by (rule less_le_trans)
  note b = binary_exponent_bounds[OF pos]
  have "(2::rat) powi e < 2 powi (binary_exponent x + 1)" using assms(1) b(2) by simp
  then have 1: "e < binary_exponent x + 1" by (simp only: powi2_less_iff)
  have "(2::rat) powi (binary_exponent x) < 2 powi (e + 1)" using assms(2) b(1) by simp
  then have 2: "binary_exponent x < e + 1" by (simp only: powi2_less_iff)
  show ?thesis using 1 2 by simp
qed

lemma binary_exponent_mono:
  assumes "0 < x" "x \<le> y"
  shows "binary_exponent x \<le> binary_exponent y"
proof -
  have ypos: "0 < y" using assms by simp
  have "2 powi (binary_exponent x) \<le> x" by (rule binary_exponent_bounds(1)[OF assms(1)])
  also have "x \<le> y" by fact
  also have "y < 2 powi (binary_exponent y + 1)" by (rule binary_exponent_bounds(2)[OF ypos])
  finally have "binary_exponent x < binary_exponent y + 1" by (simp only: powi2_less_iff)
  then show ?thesis by simp
qed

subsection \<open>Rounding to the nearest integer, ties to even\<close>

lemma floor_le_round_half_even: "\<lfloor>y\<rfloor> \<le> round_half_even y"
  by (auto simp: round_half_even_def Let_def)

lemma round_half_even_le_floor: "round_half_even y \<le> \<lfloor>y\<rfloor> + 1"
  by (auto simp: round_half_even_def Let_def)

lemma round_half_even_ge:
  assumes "of_int j \<le> y"
  shows "j \<le> round_half_even y"
proof -
  have "j \<le> \<lfloor>y\<rfloor>" using assms by (simp add: le_floor_iff)
  then show ?thesis using floor_le_round_half_even[of y] by linarith
qed

lemma round_half_even_le: "y \<le> of_int j \<Longrightarrow> round_half_even y \<le> j"
proof -
  assume a: "y \<le> of_int j"
  show ?thesis
  proof (cases "y = of_int j")
    case True
    then show ?thesis by (simp add: round_half_even_def)
  next
    case False
    with a have "y < of_int j" by simp
    then have "\<lfloor>y\<rfloor> < j" by (simp add: floor_less_iff)
    then show ?thesis by (auto simp: round_half_even_def Let_def)
  qed
qed

lemma round_half_even_of_int: "round_half_even (of_int j) = j"
  by (simp add: round_half_even_def)

lemma round_half_even_mono:
  assumes "y1 \<le> y2"
  shows "round_half_even y1 \<le> round_half_even y2"
proof (cases "\<lfloor>y1\<rfloor> = \<lfloor>y2\<rfloor>")
  case True
  then show ?thesis using assms by (auto simp: round_half_even_def Let_def)
next
  case False
  have "\<lfloor>y1\<rfloor> \<le> \<lfloor>y2\<rfloor>" using assms by (rule floor_mono)
  with False have "\<lfloor>y1\<rfloor> + 1 \<le> \<lfloor>y2\<rfloor>" by simp
  moreover have "round_half_even y1 \<le> \<lfloor>y1\<rfloor> + 1" by (rule round_half_even_le_floor)
  moreover have "\<lfloor>y2\<rfloor> \<le> round_half_even y2" by (rule floor_le_round_half_even)
  ultimately show ?thesis by linarith
qed

subsection \<open>Rounding to the nearest double\<close>

text \<open>
  Rounding is monotone, it leaves every representable number as it is, and an integer below
  \<open>2 ^ 53\<close> is representable.
\<close>

lemma powi2_split: "(2::rat) powi a * 2 powi (e - a) = 2 powi e"
proof -
  have "(2::rat) powi (a + (e - a)) = 2 powi a * 2 powi (e - a)" by (rule power_int_add) simp
  then show ?thesis by simp
qed

lemma quantum_pos: "0 < quantum x"
  by (simp add: quantum_def)

lemma quantum_mono:
  assumes "0 < x" "x \<le> y"
  shows "quantum x \<le> quantum y"
  using binary_exponent_mono[OF assms] by (simp add: quantum_def powi2_le_iff)

lemma round_to_quantum_upper:
  assumes "0 < x"
  shows "round_to_quantum x \<le> 2 powi 53 * quantum x"
proof -
  let ?e = "max (binary_exponent x) (- 1022)"
  have "x < 2 powi (binary_exponent x + 1)" by (rule binary_exponent_bounds(2)[OF assms])
  also have "\<dots> \<le> 2 powi (?e + 1)" by (simp add: powi2_le_iff)
  also have "\<dots> = 2 powi 53 * quantum x"
    using powi2_split[of 53 "?e + 1"] by (simp add: quantum_def)
  finally have "x / quantum x \<le> of_int (2 ^ 53)"
    using quantum_pos[of x] by (simp add: pos_divide_le_eq)
  then have "round_half_even (x / quantum x) \<le> 2 ^ 53" by (rule round_half_even_le)
  then have "(of_int (round_half_even (x / quantum x)) :: rat) \<le> of_int (2 ^ 53)"
    by (simp only: of_int_le_iff)
  then show ?thesis
    using quantum_pos[of x] by (simp add: round_to_quantum_def mult_right_mono)
qed

lemma round_to_quantum_lower:
  assumes "0 < x" "- 1022 \<le> binary_exponent x"
  shows "2 powi 52 * quantum x \<le> round_to_quantum x"
proof -
  have m: "max (binary_exponent x) (- 1022) = binary_exponent x" using assms(2) by simp
  have "2 powi 52 * quantum x = 2 powi (binary_exponent x)"
    using powi2_split[of 52 "binary_exponent x"] by (simp add: quantum_def m)
  also have "\<dots> \<le> x" by (rule binary_exponent_bounds(1)[OF assms(1)])
  finally have "of_int (2 ^ 52) \<le> x / quantum x"
    using quantum_pos[of x] by (simp add: pos_le_divide_eq)
  then have "2 ^ 52 \<le> round_half_even (x / quantum x)" by (rule round_half_even_ge)
  then have "(of_int (2 ^ 52) :: rat) \<le> of_int (round_half_even (x / quantum x))"
    by (simp only: of_int_le_iff)
  then show ?thesis
    using quantum_pos[of x] by (simp add: round_to_quantum_def mult_right_mono)
qed

lemma round_to_quantum_mono:
  assumes "0 < x" "x \<le> y"
  shows "round_to_quantum x \<le> round_to_quantum y"
proof (cases "quantum x = quantum y")
  case True
  have "x / quantum y \<le> y / quantum y"
    using assms(2) quantum_pos[of y] by (simp add: divide_right_mono)
  then have "round_half_even (x / quantum y) \<le> round_half_even (y / quantum y)"
    by (rule round_half_even_mono)
  then have "(of_int (round_half_even (x / quantum y)) :: rat) \<le> of_int (round_half_even (y / quantum y))"
    by (simp only: of_int_le_iff)
  then show ?thesis
    using quantum_pos[of y] by (simp add: round_to_quantum_def True mult_right_mono)
next
  case False
  have ypos: "0 < y" using assms by simp
  let ?ex = "max (binary_exponent x) (- 1022)"
  let ?ey = "max (binary_exponent y) (- 1022)"
  have "?ex \<le> ?ey" using binary_exponent_mono[OF assms] by simp
  moreover have "?ex \<noteq> ?ey" using False by (auto simp: quantum_def)
  ultimately have lt: "?ex < ?ey" by linarith
  then have ny: "- 1022 \<le> binary_exponent y" by linarith
  have "round_to_quantum x \<le> 2 powi 53 * quantum x" by (rule round_to_quantum_upper[OF assms(1)])
  also have "\<dots> = 2 powi (?ex + 1)"
    using powi2_split[of 53 "?ex + 1"] by (simp add: quantum_def)
  also have "\<dots> \<le> 2 powi ?ey" using lt by (simp only: powi2_le_iff)
  also have "\<dots> = 2 powi 52 * quantum y"
    using powi2_split[of 52 "?ey"] by (simp add: quantum_def)
  also have "\<dots> \<le> round_to_quantum y" by (rule round_to_quantum_lower[OF ypos ny])
  finally show ?thesis .
qed

lemma to_double_pos:
  assumes "0 < x"
  shows "to_double x = (if 2 powi 1024 \<le> round_to_quantum x then Infinity else Finite (round_to_quantum x))"
  using assms by (simp add: to_double_def Let_def)

lemma round_to_quantum_exact:
  assumes "0 < j" "j < 2 ^ 53" "- 1074 \<le> s"
  shows "round_to_quantum (of_int j * 2 powi s) = of_int j * 2 powi s"
proof -
  define x :: rat where "x = of_int j * 2 powi s"
  define q where "q = quantum x"
  have xpos: "0 < x" using assms(1) by (simp add: x_def)
  have qpos: "0 < q" by (simp add: q_def quantum_pos)
  let ?E = "max (binary_exponent x) (- 1022)"
  have "(of_int j :: rat) < of_int (2 ^ 53)" using assms(2) by (simp only: of_int_less_iff)
  then have "x < of_int (2 ^ 53) * 2 powi s"
    unfolding x_def by (rule mult_strict_right_mono) simp
  also have "\<dots> = 2 powi (53 + s)" by (simp add: power_int_add)
  finally have "x < 2 powi (53 + s)" .
  with binary_exponent_bounds(1)[OF xpos] have "(2::rat) powi (binary_exponent x) < 2 powi (53 + s)"
    by (rule le_less_trans)
  then have "binary_exponent x < 53 + s" by (simp only: powi2_less_iff)
  then have d: "0 \<le> s - (?E - 52)" using assms(3) by linarith
  define d where "d = nat (s - (?E - 52))"
  have "q * 2 powi (s - (?E - 52)) = 2 powi s"
    using powi2_split[of "?E - 52" s] by (simp add: q_def quantum_def)
  then have qs: "2 powi s = q * of_int (2 ^ d)"
    using d by (simp add: d_def power_int_def)
  have xq: "x = of_int (j * 2 ^ d) * q" by (simp add: x_def qs)
  then have "x / q = of_int (j * 2 ^ d)" using qpos by simp
  then have "round_half_even (x / q) = j * 2 ^ d"
    by (simp only: round_half_even_of_int)
  then have "round_to_quantum x = of_int (j * 2 ^ d) * q"
    by (simp only: round_to_quantum_def q_def)
  then have "round_to_quantum x = x" by (simp only: xq[symmetric])
  then show ?thesis by (simp only: x_def)
qed

lemma round_to_quantum_int:
  assumes "0 < j" "j < 2 ^ 53"
  shows "round_to_quantum (of_int j) = of_int j"
  using round_to_quantum_exact[OF assms, of 0] by simp

lemma round_to_quantum_nonneg: "0 < x \<Longrightarrow> 0 \<le> round_to_quantum x"
proof -
  assume "0 < x"
  then have "0 \<le> x / quantum x" using quantum_pos[of x] by simp
  then have "of_int 0 \<le> x / quantum x" by simp
  then have "0 \<le> round_half_even (x / quantum x)" by (rule round_half_even_ge)
  then show ?thesis using quantum_pos[of x] by (simp add: round_to_quantum_def)
qed

lemma to_double_finite:
  assumes "0 < x" "round_to_quantum x < 2 powi 1024"
  shows "to_double x = Finite (round_to_quantum x)"
proof -
  have "\<not> 2 powi 1024 \<le> round_to_quantum x" using assms(2) by (simp only: not_le)
  then show ?thesis by (simp only: to_double_pos[OF assms(1)] if_False)
qed

lemma round_half_even_div:
  assumes "0 < b"
  shows "round_half_even (of_int a / of_int b) =
    (if 2 * (a mod b) < b then a div b
     else if b < 2 * (a mod b) then a div b + 1
     else if even (a div b) then a div b else a div b + 1)"
proof -
  have f: "\<lfloor>(of_int a :: rat) / of_int b\<rfloor> = a div b" by (rule floor_divide_of_int_eq)
  have bpos: "(0::rat) < of_int b" using assms by simp
  have "(of_int a :: rat) = of_int (a div b * b + a mod b)" by simp
  also have "\<dots> = of_int (a div b) * of_int b + of_int (a mod b)" by (simp only: of_int_add of_int_mult)
  finally have r: "(of_int a :: rat) / of_int b - of_int (a div b) = of_int (a mod b) / of_int b"
    using bpos by (simp add: field_simps)
  have lt: "(of_int (a mod b) / of_int b < (1::rat) / 2) \<longleftrightarrow> 2 * (a mod b) < b"
  proof -
    have "(of_int (a mod b) / of_int b < (1::rat) / 2) \<longleftrightarrow> (of_int (2 * (a mod b)) :: rat) < of_int b"
      using bpos by (simp add: field_simps)
    then show ?thesis by (simp only: of_int_less_iff)
  qed
  have gt: "((1::rat) / 2 < of_int (a mod b) / of_int b) \<longleftrightarrow> b < 2 * (a mod b)"
  proof -
    have "((1::rat) / 2 < of_int (a mod b) / of_int b) \<longleftrightarrow> (of_int b :: rat) < of_int (2 * (a mod b))"
      using bpos by (simp add: field_simps)
    then show ?thesis by (simp only: of_int_less_iff)
  qed
  show ?thesis
    unfolding round_half_even_def Let_def f r lt gt ..
qed

lemma round_to_quantum_eq:
  assumes "2 powi e \<le> x" "x < 2 powi (e + 1)" "- 1022 \<le> e"
  shows "round_to_quantum x = of_int (round_half_even (x / 2 powi (e - 52))) * 2 powi (e - 52)"
proof -
  have "binary_exponent x = e" using assms(1,2) by (rule binary_exponent_unique)
  then have "quantum x = 2 powi (e - 52)" using assms(3) by (simp add: quantum_def)
  then show ?thesis by (simp only: round_to_quantum_def)
qed

lemma round_to_quantum_7_10: "round_to_quantum (7 / 10) = 6305039478318694 / 2 ^ 53"
proof -
  have "round_to_quantum (7 / 10) = of_int (round_half_even ((7 / 10) / 2 powi (- 1 - 52))) * 2 powi (- 1 - 52)"
    by (rule round_to_quantum_eq) simp_all
  also have "(7 / 10) / 2 powi (- 1 - 52) = (of_int (7 * 2 ^ 53) :: rat) / of_int 10"
    by simp
  also have "round_half_even (of_int (7 * 2 ^ 53) / of_int 10) = 6305039478318694"
    by (subst round_half_even_div) simp_all
  finally show ?thesis by simp
qed

section \<open>The length bounds\<close>

subsection \<open>The two conversions to an integer\<close>

text \<open>
  For a product \<open>input_len * compression\<close> below \<open>100 * 2 ^ 45\<close> the truncated
  double quotient is the integer quotient; for a larger one it is at least 512, which is all
  that \<open>max_len\<close> needs. The truncated product with \<open>0.7\<close> is monotone in
  \<open>max_len\<close>, at most \<open>max_len\<close>, and 21 at \<open>max_len = 30\<close>.
\<close>

lemma FLOAT_0_7_eq: "FLOAT_0_7 = 6305039478318694 / 2 ^ 53"
  by (simp only: FLOAT_0_7_def round_to_quantum_7_10)

lemma to_double_int:
  assumes "0 \<le> j" "j < 2 ^ 53"
  shows "to_double (of_int j) = Finite (of_int j)"
proof (cases "j = 0")
  case True
  then show ?thesis by (simp add: to_double_def)
next
  case False
  then have jpos: "0 < j" using assms(1) by simp
  have r: "round_to_quantum (of_int j) = of_int j" by (rule round_to_quantum_int[OF jpos assms(2)])
  have "(of_int j :: rat) < of_int (2 ^ 53)" using assms(2) by (simp only: of_int_less_iff)
  also have "\<dots> = 2 powi 53" by simp
  also have "\<dots> < 2 powi 1024" by (simp only: powi2_less_iff)
  finally have "round_to_quantum (of_int j) < 2 powi 1024" by (simp only: r)
  then have "to_double (of_int j) = Finite (round_to_quantum (of_int j))"
    using jpos by (intro to_double_finite) simp_all
  then show ?thesis by (simp only: r)
qed

lemma float_of_int_exact:
  assumes "0 \<le> j" "j < 2 ^ 53"
  shows "float_of_int j = Inr (of_int j)"
  by (simp add: float_of_int_def to_double_int[OF assms])

text \<open>Quotient of a non-negative integer by 100.\<close>

lemma round_to_quantum_between:
  assumes "0 < x" "of_int k \<le> x" "x * 128 \<le> of_int (128 * k + 127)" "0 \<le> k" "k < 2 ^ 45"
  shows "of_int k \<le> round_to_quantum x" "round_to_quantum x < of_int k + 1"
proof -
  show "of_int k \<le> round_to_quantum x"
  proof (cases "k = 0")
    case True
    then show ?thesis using round_to_quantum_nonneg[OF assms(1)] by simp
  next
    case False
    then have kpos: "0 < k" using assms(4) by simp
    have k53: "k < 2 ^ 53" using assms(5) by simp
    have "round_to_quantum (of_int k) \<le> round_to_quantum x"
      using kpos assms(2) by (intro round_to_quantum_mono) simp_all
    then show ?thesis by (simp only: round_to_quantum_int[OF kpos k53])
  qed
  let ?j = "128 * k + 127"
  have jpos: "0 < ?j" using assms(4) by simp
  have j53: "?j < 2 ^ 53" using assms(5) by simp
  have u: "round_to_quantum (of_int ?j * 2 powi (- 7)) = of_int ?j * 2 powi (- 7)"
    by (rule round_to_quantum_exact[OF jpos j53]) simp
  have "x \<le> of_int ?j * 2 powi (- 7)" using assms(3) by (simp add: field_simps)
  then have "round_to_quantum x \<le> round_to_quantum (of_int ?j * 2 powi (- 7))"
    by (rule round_to_quantum_mono[OF assms(1)])
  then have "round_to_quantum x \<le> of_int ?j * 2 powi (- 7)" by (simp only: u)
  also have "\<dots> < of_int k + 1" by (simp add: field_simps)
  finally show "round_to_quantum x < of_int k + 1" .
qed

lemma int_of_percentage_finite:
  assumes "N = int n * c" "0 < N" "round_to_quantum (of_int N / 100) < 2 powi 1024"
  shows "int_of_percentage n c = Inr \<lfloor>round_to_quantum (of_int N / 100)\<rfloor>"
proof -
  define x :: rat where "x = of_int N / 100"
  have "(0::rat) < of_int N" using assms(2) by (simp only: of_int_0_less_iff)
  then have xpos: "0 < x" by (simp add: x_def)
  have "to_double x = Finite (round_to_quantum x)"
    using xpos assms(3) unfolding x_def by (rule to_double_finite)
  then have "int_truediv N 100 = Inr (round_to_quantum x)"
    by (simp add: int_truediv_def x_def)
  moreover have "0 \<le> round_to_quantum x" by (rule round_to_quantum_nonneg[OF xpos])
  ultimately show ?thesis by (simp add: int_of_percentage_def x_def assms(1)[symmetric])
qed

lemma int_of_percentage_small:
  assumes "0 \<le> c" "int n * c < 100 * 2 ^ 45"
  shows "int_of_percentage n c = Inr ((int n * c) div 100)"
proof -
  define N where "N = int n * c"
  define k where "k = N div 100"
  have Nn: "0 \<le> N" using assms(1) by (simp add: N_def)
  have k0: "0 \<le> k" using Nn by (simp add: k_def)
  have k45: "k < 2 ^ 45" using assms(2) by (simp add: k_def N_def)
  have lo: "100 * k \<le> N" and hi: "N \<le> 100 * k + 99" by (simp_all add: k_def)
  show ?thesis
  proof (cases "N = 0")
    case True
    then show ?thesis
      by (simp add: int_of_percentage_def int_truediv_def to_double_def N_def[symmetric])
  next
    case False
    define x :: rat where "x = of_int N / 100"
    have Npos: "0 < N" using False Nn by simp
    then have "(0::rat) < of_int N" by (simp only: of_int_0_less_iff)
    then have xpos: "0 < x" by (simp add: x_def)
    have "(of_int (100 * k) :: rat) \<le> of_int N" using lo by (simp only: of_int_le_iff)
    then have a: "of_int k \<le> x" by (simp add: x_def field_simps)
    have "(of_int N :: rat) \<le> of_int (100 * k + 99)" using hi by (simp only: of_int_le_iff)
    then have b: "x * 128 \<le> of_int (128 * k + 127)" by (simp add: x_def field_simps)
    note bt = round_to_quantum_between[OF xpos a b k0 k45]
    have "k + 1 \<le> 2 ^ 53" using k45 by simp
    then have "(of_int (k + 1) :: rat) \<le> of_int (2 ^ 53)" by (simp only: of_int_le_iff)
    then have "of_int k + 1 \<le> (of_int (2 ^ 53) :: rat)" by simp
    also have "\<dots> = 2 powi 53" by simp
    also have "\<dots> < 2 powi 1024" by (simp only: powi2_less_iff)
    finally have fin: "round_to_quantum x < 2 powi 1024" using bt(2) by simp
    have fl: "\<lfloor>round_to_quantum x\<rfloor> = k" using bt by (intro floor_unique) simp_all
    have "int_of_percentage n c = Inr \<lfloor>round_to_quantum x\<rfloor>"
      using N_def Npos fin unfolding x_def by (rule int_of_percentage_finite)
    then show ?thesis by (simp only: fl k_def N_def)
  qed
qed

lemma int_of_percentage_large:
  assumes "51200 \<le> int n * c" "int n * c < 2 ^ 1000"
  shows "\<exists>t. int_of_percentage n c = Inr t \<and> 512 \<le> t"
proof -
  define N where "N = int n * c"
  define x :: rat where "x = of_int N / 100"
  have "(of_int 51200 :: rat) \<le> of_int N" using assms(1) by (simp only: N_def of_int_le_iff)
  then have x512: "of_int 512 \<le> x" by (simp add: x_def)
  then have xpos: "0 < x" by simp
  have "round_to_quantum (of_int 512) \<le> round_to_quantum x"
    using x512 by (intro round_to_quantum_mono) simp_all
  then have lo: "512 \<le> round_to_quantum x"
    using round_to_quantum_int[of 512] by simp
  have "(of_int N :: rat) < of_int (2 ^ 1000)" using assms(2) by (simp only: N_def of_int_less_iff)
  then have "x < of_int (2 ^ 1000)" using xpos by (simp add: x_def)
  also have "\<dots> = 2 powi 1000" by simp
  finally have "2 powi (binary_exponent x) < (2::rat) powi 1000"
    using binary_exponent_bounds(1)[OF xpos] by simp
  then have be: "binary_exponent x < 1000" by (simp only: powi2_less_iff)
  have "round_to_quantum x \<le> 2 powi 53 * quantum x" by (rule round_to_quantum_upper[OF xpos])
  also have "\<dots> = 2 powi (max (binary_exponent x) (- 1022) + 1)"
    using powi2_split[of 53 "max (binary_exponent x) (- 1022) + 1"] by (simp add: quantum_def)
  also have "\<dots> < 2 powi 1024" using be by (simp only: powi2_less_iff)
  finally have fin: "round_to_quantum x < 2 powi 1024" .
  have Npos: "0 < N" using assms(1) by (simp add: N_def)
  have "int_of_percentage n c = Inr \<lfloor>round_to_quantum x\<rfloor>"
    using N_def Npos fin unfolding x_def by (rule int_of_percentage_finite)
  moreover have "512 \<le> \<lfloor>round_to_quantum x\<rfloor>" using lo by (simp add: le_floor_iff)
  ultimately show ?thesis by simp
qed

lemma int_of_scaled_eq:
  assumes "0 < m" "m \<le> 512"
  shows "int_of_scaled m = Inr \<lfloor>round_to_quantum (of_int m * (6305039478318694 / 2 ^ 53))\<rfloor>"
proof -
  define d :: rat where "d = 6305039478318694 / 2 ^ 53"
  define x :: rat where "x = of_int m * d"
  have mpos: "(0::rat) < of_int m" using assms(1) by (simp only: of_int_0_less_iff)
  have dpos: "0 < d" and d1: "d \<le> 1" by (simp_all add: d_def)
  have xpos: "0 < x" using mpos dpos by (simp add: x_def)
  have m53: "m < 2 ^ 53" using assms(2) by simp
  have "x \<le> of_int m" using mpos d1 by (simp add: x_def mult_left_le)
  then have "round_to_quantum x \<le> round_to_quantum (of_int m)"
    by (rule round_to_quantum_mono[OF xpos])
  also have "\<dots> = of_int m" by (rule round_to_quantum_int[OF assms(1) m53])
  also have "\<dots> < of_int (2 ^ 53)" using m53 by (simp only: of_int_less_iff)
  also have "\<dots> = 2 powi 53" by simp
  also have "\<dots> < 2 powi 1024" by (simp only: powi2_less_iff)
  finally have "to_double x = Finite (round_to_quantum x)" by (rule to_double_finite[OF xpos])
  then have fm: "float_mul (of_int m) FLOAT_0_7 = Finite (round_to_quantum x)"
    by (simp add: float_mul_def FLOAT_0_7_eq x_def d_def)
  have fi: "float_of_int m = Inr (of_int m)"
    using assms(1) m53 by (intro float_of_int_exact) simp_all
  have "0 \<le> round_to_quantum x" by (rule round_to_quantum_nonneg[OF xpos])
  then have "int_of_scaled m = Inr \<lfloor>round_to_quantum x\<rfloor>"
    by (simp add: int_of_scaled_def fi fm)
  then show ?thesis by (simp only: x_def d_def)
qed

lemma round_to_quantum_30: "round_to_quantum (of_int 30 * (6305039478318694 / 2 ^ 53)) = 21"
proof -
  define x :: rat where "x = of_int 30 * (6305039478318694 / 2 ^ 53)"
  have "round_to_quantum x = of_int (round_half_even (x / 2 powi (4 - 52))) * 2 powi (4 - 52)"
    by (rule round_to_quantum_eq) (simp_all add: x_def)
  also have "x / 2 powi (4 - 52) = (of_int 189151184349560820 :: rat) / of_int 32"
    by (simp add: x_def)
  also have "round_half_even (of_int 189151184349560820 / of_int 32) = 5910974510923776"
    by (subst round_half_even_div) simp_all
  finally show ?thesis by (simp add: x_def)
qed

lemma int_of_scaled_mono:
  assumes "0 < m1" "m1 \<le> m2" "m2 \<le> 512" "int_of_scaled m1 = Inr g1" "int_of_scaled m2 = Inr g2"
  shows "g1 \<le> g2"
proof -
  define d :: rat where "d = 6305039478318694 / 2 ^ 53"
  have dpos: "0 < d" by (simp add: d_def)
  have m2pos: "0 < m2" and m1le: "m1 \<le> 512" using assms(1-3) by simp_all
  have g1: "g1 = \<lfloor>round_to_quantum (of_int m1 * d)\<rfloor>"
    using int_of_scaled_eq[OF assms(1) m1le] assms(4) by (simp add: d_def)
  have g2: "g2 = \<lfloor>round_to_quantum (of_int m2 * d)\<rfloor>"
    using int_of_scaled_eq[OF m2pos assms(3)] assms(5) by (simp add: d_def)
  have "(0::rat) < of_int m1" using assms(1) by (simp only: of_int_0_less_iff)
  then have pos: "0 < of_int m1 * d" using dpos by simp
  have "(of_int m1 :: rat) \<le> of_int m2" using assms(2) by (simp only: of_int_le_iff)
  then have "of_int m1 * d \<le> of_int m2 * d" using dpos by (simp add: mult_right_mono)
  then have "round_to_quantum (of_int m1 * d) \<le> round_to_quantum (of_int m2 * d)"
    by (rule round_to_quantum_mono[OF pos])
  then show ?thesis unfolding g1 g2 by (rule floor_mono)
qed

lemma int_of_scaled_30: "int_of_scaled 30 = Inr 21"
  using int_of_scaled_eq[of 30] by (simp add: round_to_quantum_30[simplified])

lemma int_of_scaled_bounds:
  assumes "30 \<le> m" "m \<le> 512"
  shows "\<exists>g. int_of_scaled m = Inr g \<and> 21 \<le> g \<and> g \<le> m"
proof -
  define d :: rat where "d = 6305039478318694 / 2 ^ 53"
  define g where "g = \<lfloor>round_to_quantum (of_int m * d)\<rfloor>"
  have mpos: "0 < m" using assms(1) by simp
  have eq: "int_of_scaled m = Inr g"
    using int_of_scaled_eq[OF mpos assms(2)] by (simp add: g_def d_def)
  have lo: "21 \<le> g"
    using int_of_scaled_mono[OF _ assms(1) assms(2) int_of_scaled_30 eq] by simp
  have mq: "(0::rat) < of_int m" using mpos by (simp only: of_int_0_less_iff)
  have dpos: "0 < d" and d1: "d \<le> 1" by (simp_all add: d_def)
  have xpos: "0 < of_int m * d" using mq dpos by simp
  have m53: "m < 2 ^ 53" using assms(2) by simp
  have "of_int m * d \<le> of_int m" using mq d1 by (simp add: mult_left_le)
  then have "round_to_quantum (of_int m * d) \<le> round_to_quantum (of_int m)"
    by (rule round_to_quantum_mono[OF xpos])
  also have "\<dots> = of_int m" by (rule round_to_quantum_int[OF mpos m53])
  finally have "g \<le> \<lfloor>(of_int m :: rat)\<rfloor>" unfolding g_def by (rule floor_mono)
  then have hi: "g \<le> m" by simp
  show ?thesis using eq lo hi by blast
qed

subsection \<open>The bounds\<close>

lemma length_bounds_result:
  assumes "c \<in> {20, 30, 50}" "n < 2 ^ 63"
  shows "\<exists>t g. int_of_percentage n c = Inr t
          \<and> int_of_scaled (min 512 (max 30 t)) = Inr g
          \<and> length_bounds n c =
              Inr \<lparr>target_len = max 30 t, max_len = min 512 (max 30 t), min_len = max 20 g\<rparr>
          \<and> min 512 (max 30 t) = min 512 (max 30 ((int n * c) div 100))
          \<and> (int n * c < 100 * 2 ^ 45 \<longrightarrow> t = (int n * c) div 100)
          \<and> 21 \<le> g \<and> g \<le> min 512 (max 30 t)"
proof -
  define N where "N = int n * c"
  have c0: "0 \<le> c" and c50: "c \<le> 50" using assms(1) by auto
  have Nn: "0 \<le> N" using c0 by (simp add: N_def)
  have "int n < int (2 ^ 63)" using assms(2) by (simp only: of_nat_less_iff)
  then have "int n < 2 ^ 63" by simp
  then have "int n * c \<le> 2 ^ 63 * 50" using c0 c50 by (intro mult_mono) simp_all
  then have Nup: "N < 2 ^ 1000" by (simp add: N_def)
  have "\<exists>t. int_of_percentage n c = Inr t
          \<and> min 512 (max 30 t) = min 512 (max 30 (N div 100))
          \<and> (N < 100 * 2 ^ 45 \<longrightarrow> t = N div 100)"
  proof (cases "N < 51200")
    case True
    then have "int n * c < 100 * 2 ^ 45" by (simp add: N_def)
    then have "int_of_percentage n c = Inr (N div 100)"
      unfolding N_def by (rule int_of_percentage_small[OF c0])
    then show ?thesis by simp
  next
    case False
    then have big: "51200 \<le> int n * c" by (simp add: N_def)
    from int_of_percentage_large[OF big Nup[unfolded N_def]]
    obtain t where t: "int_of_percentage n c = Inr t" "512 \<le> t" by blast
    have "512 \<le> N div 100" using False by simp
    moreover have "N < 100 * 2 ^ 45 \<longrightarrow> t = N div 100"
    proof
      assume "N < 100 * 2 ^ 45"
      then have "int_of_percentage n c = Inr (N div 100)"
        unfolding N_def by (rule int_of_percentage_small[OF c0])
      with t(1) show "t = N div 100" by simp
    qed
    ultimately show ?thesis using t by auto
  qed
  then obtain t where t: "int_of_percentage n c = Inr t"
      "min 512 (max 30 t) = min 512 (max 30 (N div 100))"
      "N < 100 * 2 ^ 45 \<longrightarrow> t = N div 100" by blast
  define M where "M = min 512 (max 30 t)"
  have "30 \<le> M" "M \<le> 512" by (simp_all add: M_def)
  from int_of_scaled_bounds[OF this]
  obtain g where g: "int_of_scaled M = Inr g" "21 \<le> g" "g \<le> M" by blast
  have "length_bounds n c = Inr \<lparr>target_len = max 30 t, max_len = M, min_len = max 20 g\<rparr>"
    using g(1) by (simp add: length_bounds_def t(1) Let_def M_def)
  then show ?thesis using t g unfolding M_def N_def by blast
qed

text \<open>
  Claim C2. For every compression level in {20, 30, 50} and every input token count (the
  length of a Python list, hence below \<open>2 ^ 63\<close>), the summarizer's bounds are computed
  without error and satisfy \<open>min_len \<le> max_len \<le> 512\<close> and \<open>30 \<le> max_len\<close>.
\<close>

theorem length_bounds_ordered:
  assumes "compression \<in> {20, 30, 50}" "input_len < 2 ^ 63"
  shows "\<exists>b. length_bounds input_len compression = Inr b
          \<and> min_len b \<le> max_len b \<and> max_len b \<le> 512 \<and> 30 \<le> max_len b"
proof -
  from length_bounds_result[OF assms]
  obtain t g where r:
    "length_bounds input_len compression =
       Inr \<lparr>target_len = max 30 t, max_len = min 512 (max 30 t), min_len = max 20 g\<rparr>"
    "g \<le> min 512 (max 30 t)" by blast
  have "max 20 g \<le> min 512 (max 30 t)" using r(2) by simp
  then show ?thesis using r(1) by simp
qed

theorem length_bounds_ordered_witness:
  "(30::int) \<in> {20, 30, 50} \<and> (100::nat) < 2 ^ 63
    \<and> (\<exists>b. length_bounds 100 30 = Inr b
          \<and> min_len b \<le> max_len b \<and> max_len b \<le> 512 \<and> 30 \<le> max_len b)"
  using length_bounds_ordered[of 30 100] by simp

text \<open>
  Claim C10. The computed \<open>max_len\<close> and \<open>min_len\<close> are monotone nondecreasing in the
  compression level (over {20, 30, 50}) and in the input token count; the statement covers
  both at once, a fixed token count being \<open>n1 = n2\<close> and a fixed level \<open>c1 = c2\<close>.
\<close>

theorem length_bounds_monotone:
  assumes "c1 \<in> {20, 30, 50}" "c2 \<in> {20, 30, 50}" "n1 < 2 ^ 63" "n2 < 2 ^ 63"
    and "n1 \<le> n2" "c1 \<le> c2"
  shows "\<exists>b1 b2. length_bounds n1 c1 = Inr b1 \<and> length_bounds n2 c2 = Inr b2
          \<and> max_len b1 \<le> max_len b2 \<and> min_len b1 \<le> min_len b2"
proof -
  from length_bounds_result[OF assms(1,3)]
  obtain t1 g1 where r1:
    "length_bounds n1 c1 =
       Inr \<lparr>target_len = max 30 t1, max_len = min 512 (max 30 t1), min_len = max 20 g1\<rparr>"
    "int_of_scaled (min 512 (max 30 t1)) = Inr g1"
    "min 512 (max 30 t1) = min 512 (max 30 ((int n1 * c1) div 100))" by blast
  from length_bounds_result[OF assms(2,4)]
  obtain t2 g2 where r2:
    "length_bounds n2 c2 =
       Inr \<lparr>target_len = max 30 t2, max_len = min 512 (max 30 t2), min_len = max 20 g2\<rparr>"
    "int_of_scaled (min 512 (max 30 t2)) = Inr g2"
    "min 512 (max 30 t2) = min 512 (max 30 ((int n2 * c2) div 100))" by blast
  have c1n: "0 \<le> c1" using assms(1) by auto
  have "int n1 * c1 \<le> int n2 * c2" using assms(5,6) c1n by (intro mult_mono) simp_all
  then have "(int n1 * c1) div 100 \<le> (int n2 * c2) div 100" by (intro zdiv_mono1) simp_all
  then have M: "min 512 (max 30 t1) \<le> min 512 (max 30 t2)" unfolding r1(3) r2(3) by simp
  have "0 < min 512 (max 30 t1)" "min 512 (max 30 t2) \<le> 512" by simp_all
  from int_of_scaled_mono[OF this(1) M this(2) r1(2) r2(2)] have "g1 \<le> g2" .
  then have "max 20 g1 \<le> max 20 g2" by simp
  then show ?thesis using r1(1) r2(1) M by simp
qed

theorem length_bounds_monotone_witness:
  "(20::int) \<in> {20, 30, 50} \<and> (50::int) \<in> {20, 30, 50}
    \<and> (200::nat) < 2 ^ 63 \<and> (300::nat) < 2 ^ 63 \<and> (200::nat) \<le> 300 \<and> (20::int) \<le> 50
    \<and> (\<exists>b1 b2. length_bounds 200 20 = Inr b1 \<and> length_bounds 300 50 = Inr b2
          \<and> max_len b1 \<le> max_len b2 \<and> min_len b1 \<le> min_len b2)"
  using length_bounds_monotone[of 20 50 200 300] by simp

subsection \<open>The truncated product in integer arithmetic\<close>

text \<open>
  Within one binade the double product \<open>max_len * 0.7\<close> is an integer rounding of
  \<open>max_len * 6305039478318694\<close>; evaluating it for every \<open>max_len\<close> from 30 to 512
  shows that \<open>int(max_len * 0.7)\<close> is \<open>7 * max_len div 10\<close>, less one at seven values.
\<close>

lemma powi2_nat: "(2::rat) powi (int e) = of_int (2 ^ e)"
  by simp

lemma int_of_scaled_binade:
  fixes e :: nat
  assumes "0 < m" "m \<le> 512" "e \<le> 52"
    and "2 ^ (e + 53) \<le> m * 6305039478318694" "m * 6305039478318694 < 2 ^ (e + 54)"
  shows "int_of_scaled m =
    Inr ((let a = m * 6305039478318694; b = 2 ^ (e + 1)
          in if 2 * (a mod b) < b then a div b
             else if b < 2 * (a mod b) then a div b + 1
             else if even (a div b) then a div b else a div b + 1) div 2 ^ (52 - e))"
proof -
  define a where "a = m * 6305039478318694"
  define x :: rat where "x = of_int m * (6305039478318694 / 2 ^ 53)"
  define R where "R = round_half_even (of_int a / of_int (2 ^ (e + 1)))"
  have xa: "x = of_int a / of_int (2 ^ 53)" by (simp add: x_def a_def)
  have p53: "(0::rat) < of_int (2 ^ 53)" by simp
  have "(of_int (2 ^ (e + 53)) :: rat) \<le> of_int a" using assms(4) by (simp only: a_def of_int_le_iff)
  then have "of_int (2 ^ e) * of_int (2 ^ 53) \<le> (of_int a :: rat)" by (simp add: power_add)
  then have "of_int (2 ^ e) \<le> x" unfolding xa using p53 by (simp only: pos_le_divide_eq)
  then have lo: "2 powi (int e) \<le> x" by simp
  have "(of_int a :: rat) < of_int (2 ^ (e + 54))" using assms(5) by (simp only: a_def of_int_less_iff)
  then have "(of_int a :: rat) < of_int (2 ^ (e + 1)) * of_int (2 ^ 53)" by (simp add: power_add)
  then have "x < of_int (2 ^ (e + 1))" unfolding xa using p53 by (simp only: pos_divide_less_eq)
  then have hi: "x < 2 powi (int e + 1)" by (simp add: power_int_add)
  have q: "(2::rat) powi (int e - 52) = 1 / of_int (2 ^ (52 - e))"
  proof -
    have "(2::rat) powi (int e - 52) = 2 powi (- int (52 - e))" using assms(3) by simp
    also have "\<dots> = 1 / 2 powi (int (52 - e))" by (rule power_int_minus_divide)
    finally show ?thesis by simp
  qed
  have "(of_int (2 ^ 53) :: rat) = of_int (2 ^ (e + 1)) * of_int (2 ^ (52 - e))"
    using assms(3) by (simp add: power_add[symmetric] del: power_Suc)
  moreover have "\<And>A B C P :: rat. 0 < C \<Longrightarrow> P = B * C \<Longrightarrow> (A / P) / (1 / C) = A / B"
    by simp
  ultimately have xq: "x / 2 powi (int e - 52) = of_int a / of_int (2 ^ (e + 1))"
    unfolding xa q by (metis of_int_0_less_iff zero_less_numeral zero_less_power)
  have "round_to_quantum x = of_int (round_half_even (x / 2 powi (int e - 52))) * 2 powi (int e - 52)"
    using lo hi by (rule round_to_quantum_eq) simp
  then have "round_to_quantum x = of_int R * 2 powi (int e - 52)"
    by (simp only: xq R_def)
  then have "round_to_quantum x = of_int R * (1 / of_int (2 ^ (52 - e)))"
    by (simp only: q)
  then have "round_to_quantum x = of_int R / of_int (2 ^ (52 - e))"
    by (simp only: times_divide_eq_right mult_1_right)
  then have "\<lfloor>round_to_quantum x\<rfloor> = R div 2 ^ (52 - e)"
    by (simp only: floor_divide_of_int_eq)
  moreover have "int_of_scaled m = Inr \<lfloor>round_to_quantum x\<rfloor>"
    unfolding x_def by (rule int_of_scaled_eq[OF assms(1,2)])
  moreover have "R = (if 2 * (a mod 2 ^ (e + 1)) < 2 ^ (e + 1) then a div 2 ^ (e + 1)
             else if 2 ^ (e + 1) < 2 * (a mod 2 ^ (e + 1)) then a div 2 ^ (e + 1) + 1
             else if even (a div 2 ^ (e + 1)) then a div 2 ^ (e + 1) else a div 2 ^ (e + 1) + 1)"
    unfolding R_def by (rule round_half_even_div) simp
  ultimately show ?thesis by (simp only: Let_def a_def)
qed

lemma ball_int_interval: "(\<forall>m\<in>{i..j::int}. P m) \<longleftrightarrow> list_all P [i..j]"
  by (simp add: list_all_iff)

lemma scaled_table_4:
  "\<forall>m\<in>{30..45::int}.
     (let a = m * 6305039478318694; b = 2 ^ (4 + 1)
      in if 2 * (a mod b) < b then a div b
         else if b < 2 * (a mod b) then a div b + 1
         else if even (a div b) then a div b else a div b + 1) div 2 ^ (52 - 4)
     = 7 * m div 10 - (if m \<in> {90, 170, 180, 330, 340, 350, 360} then 1 else 0)"
  unfolding ball_int_interval by (simp add: upto_rec_numeral Let_def)

lemma scaled_table_5:
  "\<forall>m\<in>{46..91::int}.
     (let a = m * 6305039478318694; b = 2 ^ (5 + 1)
      in if 2 * (a mod b) < b then a div b
         else if b < 2 * (a mod b) then a div b + 1
         else if even (a div b) then a div b else a div b + 1) div 2 ^ (52 - 5)
     = 7 * m div 10 - (if m \<in> {90, 170, 180, 330, 340, 350, 360} then 1 else 0)"
  unfolding ball_int_interval by (simp add: upto_rec_numeral Let_def)

lemma scaled_table_6:
  "\<forall>m\<in>{92..182::int}.
     (let a = m * 6305039478318694; b = 2 ^ (6 + 1)
      in if 2 * (a mod b) < b then a div b
         else if b < 2 * (a mod b) then a div b + 1
         else if even (a div b) then a div b else a div b + 1) div 2 ^ (52 - 6)
     = 7 * m div 10 - (if m \<in> {90, 170, 180, 330, 340, 350, 360} then 1 else 0)"
  unfolding ball_int_interval by (simp add: upto_rec_numeral Let_def)

lemma scaled_table_7:
  "\<forall>m\<in>{183..365::int}.
     (let a = m * 6305039478318694; b = 2 ^ (7 + 1)
      in if 2 * (a mod b) < b then a div b
         else if b < 2 * (a mod b) then a div b + 1
         else if even (a div b) then a div b else a div b + 1) div 2 ^ (52 - 7)
     = 7 * m div 10 - (if m \<in> {90, 170, 180, 330, 340, 350, 360} then 1 else 0)"
  unfolding ball_int_interval by (simp add: upto_rec_numeral Let_def)

lemma scaled_table_8:
  "\<forall>m\<in>{366..512::int}.
     (let a = m * 6305039478318694; b = 2 ^ (8 + 1)
      in if 2 * (a mod b) < b then a div b
         else if b < 2 * (a mod b) then a div b + 1
         else if even (a div b) then a div b else a div b + 1) div 2 ^ (52 - 8)
     = 7 * m div 10 - (if m \<in> {90, 170, 180, 330, 340, 350, 360} then 1 else 0)"
  unfolding ball_int_interval by (simp add: upto_rec_numeral Let_def)

lemma int_of_scaled_closed_form_explicit:
  assumes "30 \<le> m" "m \<le> 512"
  shows "int_of_scaled m =
    Inr (7 * m div 10 - (if m \<in> {90, 170, 180, 330, 340, 350, 360} then 1 else 0))"
proof -
  have mpos: "0 < m" using assms(1) by simp
  consider "m \<le> 45" | "46 \<le> m" "m \<le> 91" | "92 \<le> m" "m \<le> 182"
    | "183 \<le> m" "m \<le> 365" | "366 \<le> m" by linarith
  then show ?thesis
  proof cases
    case 1
    have "int_of_scaled m = Inr ((let a = m * 6305039478318694; b = 2 ^ (4 + 1)
          in if 2 * (a mod b) < b then a div b
             else if b < 2 * (a mod b) then a div b + 1
             else if even (a div b) then a div b else a div b + 1) div 2 ^ (52 - 4))"
      using assms 1 by (intro int_of_scaled_binade) simp_all
    then show ?thesis using scaled_table_4[rule_format, of m] assms 1 by simp
  next
    case 2
    have "int_of_scaled m = Inr ((let a = m * 6305039478318694; b = 2 ^ (5 + 1)
          in if 2 * (a mod b) < b then a div b
             else if b < 2 * (a mod b) then a div b + 1
             else if even (a div b) then a div b else a div b + 1) div 2 ^ (52 - 5))"
      using assms 2 by (intro int_of_scaled_binade) simp_all
    then show ?thesis using scaled_table_5[rule_format, of m] 2 by simp
  next
    case 3
    have "int_of_scaled m = Inr ((let a = m * 6305039478318694; b = 2 ^ (6 + 1)
          in if 2 * (a mod b) < b then a div b
             else if b < 2 * (a mod b) then a div b + 1
             else if even (a div b) then a div b else a div b + 1) div 2 ^ (52 - 6))"
      using assms 3 by (intro int_of_scaled_binade) simp_all
    then show ?thesis using scaled_table_6[rule_format, of m] 3 by simp
  next
    case 4
    have "int_of_scaled m = Inr ((let a = m * 6305039478318694; b = 2 ^ (7 + 1)
          in if 2 * (a mod b) < b then a div b
             else if b < 2 * (a mod b) then a div b + 1
             else if even (a div b) then a div b else a div b + 1) div 2 ^ (52 - 7))"
      using assms 4 by (intro int_of_scaled_binade) simp_all
    then show ?thesis using scaled_table_7[rule_format, of m] 4 by simp
  next
    case 5
    have "int_of_scaled m = Inr ((let a = m * 6305039478318694; b = 2 ^ (8 + 1)
          in if 2 * (a mod b) < b then a div b
             else if b < 2 * (a mod b) then a div b + 1
             else if even (a div b) then a div b else a div b + 1) div 2 ^ (52 - 8))"
      using assms 5 by (intro int_of_scaled_binade) simp_all
    then show ?thesis using scaled_table_8[rule_format, of m] assms 5 by simp
  qed
qed

lemma int_of_scaled_closed_form:
  assumes "30 \<le> m" "m \<le> 512"
  shows "int_of_scaled m = Inr (7 * m div 10 - (if m \<in> short_products then 1 else 0))"
  unfolding short_products_def using assms by (rule int_of_scaled_closed_form_explicit)

subsection \<open>Truncation, not rounding\<close>

text \<open>
  Claim C1, as amended. The code converts with \<open>int\<close>, which truncates, where the claim
  says \<open>round\<close>: \<open>target_len = max(30, int(input_len * compression / 100))\<close>, which is
  \<open>max(30, input_len * compression div 100)\<close> for every realistic token count,
  \<open>max_len = min(512, target_len)\<close> and \<open>min_len = max(20, int(max_len * 0.7))\<close>, the
  product being taken in double precision: it is \<open>7 * max_len div 10\<close>, less one at the
  seven values of \<open>max_len\<close> where the double product falls just below an integer.
\<close>

theorem length_bounds_truncating:
  assumes "compression \<in> {20, 30, 50}" "input_len < 2 ^ 63"
  shows "\<exists>b t. length_bounds input_len compression = Inr b
          \<and> int_of_percentage input_len compression = Inr t
          \<and> (int input_len * compression < 100 * 2 ^ 45 \<longrightarrow>
                t = int input_len * compression div 100)
          \<and> target_len b = max 30 t
          \<and> max_len b = min 512 (target_len b)
          \<and> int_of_scaled (max_len b) =
                Inr (7 * max_len b div 10 - (if max_len b \<in> short_products then 1 else 0))
          \<and> min_len b =
                max 20 (7 * max_len b div 10 - (if max_len b \<in> short_products then 1 else 0))"
proof -
  from length_bounds_result[OF assms]
  obtain t g where r:
    "int_of_percentage input_len compression = Inr t"
    "int_of_scaled (min 512 (max 30 t)) = Inr g"
    "length_bounds input_len compression =
       Inr \<lparr>target_len = max 30 t, max_len = min 512 (max 30 t), min_len = max 20 g\<rparr>"
    "int input_len * compression < 100 * 2 ^ 45 \<longrightarrow> t = int input_len * compression div 100"
    by blast
  define M where "M = min 512 (max 30 t)"
  have "30 \<le> M" "M \<le> 512" by (simp_all add: M_def)
  from int_of_scaled_closed_form[OF this]
  have cf: "int_of_scaled M = Inr (7 * M div 10 - (if M \<in> short_products then 1 else 0))" .
  have "Inr g = (Inr (7 * M div 10 - (if M \<in> short_products then 1 else 0)) :: py_error + int)"
    using r(2)[folded M_def] cf by (rule trans[OF sym])
  then have g: "g = 7 * M div 10 - (if M \<in> short_products then 1 else 0)"
    by (simp only: sum.inject)
  let ?b = "\<lparr>target_len = max 30 t, max_len = M,
              min_len = max 20 (7 * M div 10 - (if M \<in> short_products then 1 else 0))\<rparr>"
  have 1: "length_bounds input_len compression = Inr ?b" using r(3) by (simp only: M_def g)
  have 2: "target_len ?b = max 30 t" by (simp only: bounds.select_convs)
  have 3: "max_len ?b = min 512 (target_len ?b)" by (simp only: bounds.select_convs M_def)
  have 4: "int_of_scaled (max_len ?b) =
      Inr (7 * max_len ?b div 10 - (if max_len ?b \<in> short_products then 1 else 0))"
    using cf by (simp only: bounds.select_convs)
  have 5: "min_len ?b =
      max 20 (7 * max_len ?b div 10 - (if max_len ?b \<in> short_products then 1 else 0))"
    by (simp only: bounds.select_convs)
  show ?thesis
    by (intro exI[of _ ?b] exI[of _ t] conjI) (fact 1 r(1) r(4) 2 3 4 5)+
qed

lemma length_bounds_eval:
  assumes "c \<in> {20, 30, 50}" "int n * c < 100 * 2 ^ 45"
    and "M = min 512 (max 30 (int n * c div 100))"
  shows "length_bounds n c =
     Inr \<lparr>target_len = max 30 (int n * c div 100), max_len = M,
          min_len = max 20 (7 * M div 10 - (if M \<in> short_products then 1 else 0))\<rparr>"
proof -
  have c0: "0 \<le> c" using assms(1) by auto
  have p: "int_of_percentage n c = Inr (int n * c div 100)"
    by (rule int_of_percentage_small[OF c0 assms(2)])
  have "30 \<le> M" "M \<le> 512" by (simp_all add: assms(3))
  from int_of_scaled_closed_form[OF this]
  have cf: "int_of_scaled M = Inr (7 * M div 10 - (if M \<in> short_products then 1 else 0))" .
  show ?thesis
    by (simp only: length_bounds_def p Let_def sum.case assms(3)[symmetric] cf)
qed

lemma floor_rat_numeral_divide:
  "\<lfloor>(numeral a :: rat) / numeral b\<rfloor> = numeral a div numeral b"
  by (metis floor_divide_of_int_eq of_int_numeral)

theorem length_bounds_round_counterexample:
  "length_bounds 153 20 = Inr \<lparr>target_len = 30, max_len = 30, min_len = 21\<rparr>
    \<and> spec_length_bounds 153 20 = \<lparr>target_len = 31, max_len = 31, min_len = 22\<rparr>"
proof
  have "length_bounds 153 20 =
     Inr \<lparr>target_len = max 30 (int 153 * 20 div 100), max_len = 30,
          min_len = max 20 (7 * 30 div 10 - (if 30 \<in> short_products then 1 else 0))\<rparr>"
    by (rule length_bounds_eval) simp_all
  then show "length_bounds 153 20 = Inr \<lparr>target_len = 30, max_len = 30, min_len = 21\<rparr>"
    by (simp add: short_products_def)
  show "spec_length_bounds 153 20 = \<lparr>target_len = 31, max_len = 31, min_len = 22\<rparr>"
    by (simp add: spec_length_bounds_def Let_def round_def floor_rat_numeral_divide)
qed

theorem length_bounds_truncating_witness:
  "(20::int) \<in> {20, 30, 50} \<and> (153::nat) < 2 ^ 63
    \<and> (\<exists>b t. length_bounds 153 20 = Inr b
          \<and> int_of_percentage 153 20 = Inr t
          \<and> (int 153 * 20 < 100 * 2 ^ 45 \<longrightarrow> t = int 153 * 20 div 100)
          \<and> target_len b = max 30 t
          \<and> max_len b = min 512 (target_len b)
          \<and> int_of_scaled (max_len b) =
                Inr (7 * max_len b div 10 - (if max_len b \<in> short_products then 1 else 0))
          \<and> min_len b =
                max 20 (7 * max_len b div 10 - (if max_len b \<in> short_products then 1 else 0)))"
  using length_bounds_truncating[of 20 153] by simp

subsection \<open>The floor of \<open>min_len\<close>\<close>

lemma spec_truncation_eq:
  assumes "0 \<le> m"
  shows "spec_truncation m = 7 * m div 10"
proof -
  have "(7 / 10 :: rat) * of_int m = of_int (7 * m) / of_int 10" by simp
  moreover have "0 \<le> (of_int (7 * m) / of_int 10 :: rat)" using assms by simp
  ultimately have "spec_truncation m = \<lfloor>(of_int (7 * m) / of_int 10 :: rat)\<rfloor>"
    by (simp only: spec_truncation_def Let_def if_True)
  then show ?thesis by (simp only: floor_divide_of_int_eq)
qed

text \<open>
  Claim C9, as amended. For every input token count and every compression level in
  {20, 30, 50}, \<open>min_len\<close> is the truncated double product \<open>int(max_len * 0.7)\<close>. That is
  the integer truncation of \<open>0.7 * max_len\<close> except where \<open>max_len\<close> is one of 90, 170,
  180, 330, 340, 350 and 360: there the double product falls just below the integer
  \<open>7 * max_len / 10\<close> and \<open>min_len\<close> is one less. It is at least 21, so the constant 20
  in \<open>max(20, ...)\<close> is never the larger operand.
\<close>

theorem min_len_floor_dead:
  assumes "compression \<in> {20, 30, 50}" "input_len < 2 ^ 63"
  shows "\<exists>b. length_bounds input_len compression = Inr b
          \<and> int_of_scaled (max_len b) = Inr (min_len b)
          \<and> min_len b =
              spec_truncation (max_len b) - (if max_len b \<in> short_products then 1 else 0)
          \<and> 21 \<le> min_len b"
proof -
  from length_bounds_result[OF assms]
  obtain t g where r:
    "length_bounds input_len compression =
       Inr \<lparr>target_len = max 30 t, max_len = min 512 (max 30 t), min_len = max 20 g\<rparr>"
    "int_of_scaled (min 512 (max 30 t)) = Inr g" "21 \<le> g" by blast
  define M where "M = min 512 (max 30 t)"
  have M: "30 \<le> M" "M \<le> 512" by (simp_all add: M_def)
  from int_of_scaled_closed_form[OF M]
  have cf: "int_of_scaled M = Inr (7 * M div 10 - (if M \<in> short_products then 1 else 0))" .
  have "Inr g = (Inr (7 * M div 10 - (if M \<in> short_products then 1 else 0)) :: py_error + int)"
    using r(2)[folded M_def] cf by (rule trans[OF sym])
  then have g: "g = 7 * M div 10 - (if M \<in> short_products then 1 else 0)"
    by (simp only: sum.inject)
  have st: "spec_truncation M = 7 * M div 10" using M(1) by (intro spec_truncation_eq) simp
  have mg: "max 20 g = g" using r(3) by simp
  let ?b = "\<lparr>target_len = max 30 t, max_len = M, min_len = g\<rparr>"
  have 1: "length_bounds input_len compression = Inr ?b" using r(1) by (simp only: M_def mg)
  have 2: "int_of_scaled (max_len ?b) = Inr (min_len ?b)"
    using r(2) by (simp only: bounds.select_convs M_def)
  have 3: "min_len ?b =
      spec_truncation (max_len ?b) - (if max_len ?b \<in> short_products then 1 else 0)"
    using g by (simp only: bounds.select_convs st)
  have 4: "21 \<le> min_len ?b" using r(3) by (simp only: bounds.select_convs)
  show ?thesis by (intro exI[of _ ?b] conjI) (fact 1 2 3 4)+
qed

theorem min_len_floor_dead_witness:
  "(20::int) \<in> {20, 30, 50} \<and> (450::nat) < 2 ^ 63
    \<and> (\<exists>b. length_bounds 450 20 = Inr b
          \<and> int_of_scaled (max_len b) = Inr (min_len b)
          \<and> min_len b =
              spec_truncation (max_len b) - (if max_len b \<in> short_products then 1 else 0)
          \<and> 21 \<le> min_len b)"
  using min_len_floor_dead[of 20 450] by simp

theorem min_len_exact_counterexample:
  "length_bounds 450 20 = Inr \<lparr>target_len = 90, max_len = 90, min_len = 62\<rparr>
    \<and> spec_truncation 90 = 63"
proof
  have "length_bounds 450 20 =
     Inr \<lparr>target_len = max 30 (int 450 * 20 div 100), max_len = 90,
          min_len = max 20 (7 * 90 div 10 - (if 90 \<in> short_products then 1 else 0))\<rparr>"
    by (rule length_bounds_eval) simp_all
  then show "length_bounds 450 20 = Inr \<lparr>target_len = 90, max_len = 90, min_len = 62\<rparr>"
    by (simp add: short_products_def)
  show "spec_truncation 90 = 63" by (simp add: spec_truncation_eq)
qed

section \<open>UTF-8 and newlines\<close>

lemma utf8_first_simps:
  "utf8_first [] = None"
  "utf8_first (b0 # r0) =
          (if b0 < 128 then Some (b0, 1)
          else if 194 \<le> b0 \<and> b0 \<le> 223 then
            (case r0 of
               b1 # _ \<Rightarrow>
                 if continuation b1 then Some ((b0 - 192) * 64 + (b1 - 128), 2) else None
             | _ \<Rightarrow> None)
          else if 224 \<le> b0 \<and> b0 \<le> 239 then
            (case r0 of
               b1 # b2 # _ \<Rightarrow>
                 let cp = (b0 - 224) * 4096 + (b1 - 128) * 64 + (b2 - 128)
                 in if continuation b1 \<and> continuation b2 \<and> 2048 \<le> cp
                       \<and> \<not> (55296 \<le> cp \<and> cp \<le> 57343)
                    then Some (cp, 3) else None
             | _ \<Rightarrow> None)
          else if 240 \<le> b0 \<and> b0 \<le> 244 then
            (case r0 of
               b1 # b2 # b3 # _ \<Rightarrow>
                 let cp = (b0 - 240) * 262144 + (b1 - 128) * 4096 + (b2 - 128) * 64
                            + (b3 - 128)
                 in if continuation b1 \<and> continuation b2 \<and> continuation b3
                       \<and> 65536 \<le> cp \<and> cp \<le> 1114111
                    then Some (cp, 4) else None
             | _ \<Rightarrow> None)
          else None)"
  by (simp_all add: utf8_first_def)

lemma utf8_decode_Nil: "utf8_decode [] = Some []"
  by (simp add: utf8_decode.simps)

lemma utf8_decode_Cons:
  "utf8_decode (b # bs) =
     (case utf8_first (b # bs) of
        None \<Rightarrow> None
      | Some (cp, n) \<Rightarrow>
          if 0 < n \<and> n \<le> length (b # bs)
          then map_option ((#) cp) (utf8_decode (drop n (b # bs)))
          else None)"
  by (subst utf8_decode.simps) simp

lemma digits2:
  fixes a r :: nat
  assumes "r < 64"
  shows "(a * 64 + r) div 64 = a" "(a * 64 + r) mod 64 = r"
  using assms by simp_all

lemma digits3:
  fixes a b c :: nat
  assumes "b < 64" "c < 64"
  shows "(a * 4096 + b * 64 + c) div 4096 = a"
    "(a * 4096 + b * 64 + c) div 64 mod 64 = b"
    "(a * 4096 + b * 64 + c) mod 64 = c"
proof -
  have eq: "a * 4096 + b * 64 + c = (a * 64 + b) * 64 + c" by (simp add: algebra_simps)
  show "(a * 4096 + b * 64 + c) mod 64 = c"
    unfolding eq by (rule digits2(2)[OF assms(2)])
  show "(a * 4096 + b * 64 + c) div 64 mod 64 = b"
    unfolding eq by (simp only: digits2(1)[OF assms(2)] digits2(2)[OF assms(1)])
  have "(a * 4096 + b * 64 + c) div 4096 = ((a * 64 + b) * 64 + c) div (64 * 64)"
    unfolding eq by simp
  also have "\<dots> = ((a * 64 + b) * 64 + c) div 64 div 64" by (rule div_mult2_eq)
  also have "\<dots> = a" by (simp only: digits2(1)[OF assms(2)] digits2(1)[OF assms(1)])
  finally show "(a * 4096 + b * 64 + c) div 4096 = a" .
qed

lemma digits4:
  fixes a b c d :: nat
  assumes "b < 64" "c < 64" "d < 64"
  shows "(a * 262144 + b * 4096 + c * 64 + d) div 262144 = a"
    "(a * 262144 + b * 4096 + c * 64 + d) div 4096 mod 64 = b"
    "(a * 262144 + b * 4096 + c * 64 + d) div 64 mod 64 = c"
    "(a * 262144 + b * 4096 + c * 64 + d) mod 64 = d"
proof -
  have eq: "a * 262144 + b * 4096 + c * 64 + d = (a * 64 + b) * 4096 + c * 64 + d"
    by (simp add: algebra_simps)
  note t = digits3[OF assms(2,3), of "a * 64 + b"]
  show "(a * 262144 + b * 4096 + c * 64 + d) mod 64 = d" unfolding eq by (rule t(3))
  show "(a * 262144 + b * 4096 + c * 64 + d) div 64 mod 64 = c" unfolding eq by (rule t(2))
  show "(a * 262144 + b * 4096 + c * 64 + d) div 4096 mod 64 = b"
    unfolding eq by (simp only: t(1) digits2(2)[OF assms(1)])
  have "(a * 262144 + b * 4096 + c * 64 + d) div 262144
      = ((a * 64 + b) * 4096 + c * 64 + d) div (4096 * 64)"
    unfolding eq by simp
  also have "\<dots> = ((a * 64 + b) * 4096 + c * 64 + d) div 4096 div 64" by (rule div_mult2_eq)
  also have "\<dots> = a" by (simp only: t(1) digits2(1)[OF assms(1)])
  finally show "(a * 262144 + b * 4096 + c * 64 + d) div 262144 = a" .
qed

lemma utf8_first_cases:
  assumes "utf8_first bs = Some (cp, n)"
  obtains
    (one) b0 r where "bs = b0 # r" "b0 < 128" "cp = b0" "n = 1"
  | (two) b0 b1 r where "bs = b0 # b1 # r" "194 \<le> b0" "b0 \<le> 223" "continuation b1"
      "cp = (b0 - 192) * 64 + (b1 - 128)" "n = 2"
  | (three) b0 b1 b2 r where "bs = b0 # b1 # b2 # r" "224 \<le> b0" "b0 \<le> 239"
      "continuation b1" "continuation b2"
      "cp = (b0 - 224) * 4096 + (b1 - 128) * 64 + (b2 - 128)"
      "2048 \<le> cp" "\<not> (55296 \<le> cp \<and> cp \<le> 57343)" "n = 3"
  | (four) b0 b1 b2 b3 r where "bs = b0 # b1 # b2 # b3 # r" "240 \<le> b0" "b0 \<le> 244"
      "continuation b1" "continuation b2" "continuation b3"
      "cp = (b0 - 240) * 262144 + (b1 - 128) * 4096 + (b2 - 128) * 64 + (b3 - 128)"
      "65536 \<le> cp" "cp \<le> 1114111" "n = 4"
proof (cases bs)
  case Nil
  with assms show ?thesis by (simp add: utf8_first_simps)
next
  case (Cons b0 r0)
  consider "b0 < 128" | "194 \<le> b0" "b0 \<le> 223" | "224 \<le> b0" "b0 \<le> 239"
    | "240 \<le> b0" "b0 \<le> 244" | "128 \<le> b0" "b0 < 194" | "244 < b0" by linarith
  then show ?thesis
  proof cases
    case 1
    with assms Cons have "cp = b0" "n = 1" by (simp_all add: utf8_first_simps)
    with 1 Cons show ?thesis by (intro one)
  next
    case 2
    then have nb: "\<not> b0 < 128" by simp
    show ?thesis
    proof (cases r0)
      case Nil
      with assms Cons 2 nb show ?thesis by (simp add: utf8_first_simps)
    next
      case (Cons b1 r1)
      with assms \<open>bs = b0 # r0\<close> 2 nb
      have "continuation b1" "cp = (b0 - 192) * 64 + (b1 - 128)" "n = 2"
        by (simp_all add: utf8_first_simps split: if_splits)
      with 2 Cons \<open>bs = b0 # r0\<close> show ?thesis by (intro two) simp_all
    qed
  next
    case 3
    then have nb: "\<not> b0 < 128" "\<not> (194 \<le> b0 \<and> b0 \<le> 223)" by simp_all
    from assms Cons 3 nb obtain b1 b2 r2 where r0: "r0 = b1 # b2 # r2"
      by (cases r0; cases "tl r0") (simp_all add: utf8_first_simps)
    define c where "c = (b0 - 224) * 4096 + (b1 - 128) * 64 + (b2 - 128)"
    from assms Cons 3 nb r0
    have "continuation b1 \<and> continuation b2 \<and> 2048 \<le> c \<and> \<not> (55296 \<le> c \<and> c \<le> 57343)
        \<and> cp = c \<and> n = 3"
      unfolding c_def by (simp add: utf8_first_simps Let_def split: if_splits)
    with 3 r0 Cons show ?thesis unfolding c_def by (intro three) simp_all
  next
    case 4
    then have nb: "\<not> b0 < 128" "\<not> (194 \<le> b0 \<and> b0 \<le> 223)" "\<not> (224 \<le> b0 \<and> b0 \<le> 239)"
      by simp_all
    from assms Cons 4 nb obtain b1 b2 b3 r3 where r0: "r0 = b1 # b2 # b3 # r3"
      by (cases r0; cases "tl r0"; cases "tl (tl r0)") (simp_all add: utf8_first_simps)
    define c where "c = (b0 - 240) * 262144 + (b1 - 128) * 4096 + (b2 - 128) * 64 + (b3 - 128)"
    from assms Cons 4 nb r0
    have "continuation b1 \<and> continuation b2 \<and> continuation b3 \<and> 65536 \<le> c \<and> c \<le> 1114111
        \<and> cp = c \<and> n = 4"
      unfolding c_def by (simp add: utf8_first_simps Let_def split: if_splits)
    with 4 r0 Cons show ?thesis unfolding c_def by (intro four) simp_all
  next
    case 5
    with assms Cons show ?thesis by (simp add: utf8_first_simps)
  next
    case 6
    with assms Cons show ?thesis by (simp add: utf8_first_simps)
  qed
qed

lemma utf8_first_encode:
  assumes "utf8_first bs = Some (cp, n)"
  shows "0 < n \<and> n \<le> length bs \<and> utf8_encode_char cp = Some (take n bs)"
  using assms
proof (cases rule: utf8_first_cases)
  case (one b0 r)
  then show ?thesis by (simp add: utf8_encode_char_def)
next
  case (two b0 b1 r)
  define a where "a = b0 - 192"
  define x where "x = b1 - 128"
  have b0: "b0 = 192 + a" and a: "2 \<le> a" "a \<le> 31" using two(2,3) by (simp_all add: a_def)
  have b1: "b1 = 128 + x" and x: "x < 64"
    using two(4) by (auto simp: x_def continuation_def)
  have cp: "cp = a * 64 + x" using two(5) by (simp only: a_def x_def)
  have d: "cp div 64 = a" "cp mod 64 = x" unfolding cp by (rule digits2[OF x])+
  have r: "\<not> cp < 128" "cp < 2048" using a x unfolding cp by linarith+
  have "utf8_encode_char cp = Some [b0, b1]"
    using r by (simp add: utf8_encode_char_def d b0 b1)
  then show ?thesis using two(1,6) by simp
next
  case (three b0 b1 b2 r)
  define a where "a = b0 - 224"
  define x where "x = b1 - 128"
  define y where "y = b2 - 128"
  have b0: "b0 = 224 + a" and a: "a \<le> 15" using three(2,3) by (simp_all add: a_def)
  have b1: "b1 = 128 + x" and x: "x < 64"
    using three(4) by (auto simp: x_def continuation_def)
  have b2: "b2 = 128 + y" and y: "y < 64"
    using three(5) by (auto simp: y_def continuation_def)
  have cp: "cp = a * 4096 + x * 64 + y" using three(6) by (simp only: a_def x_def y_def)
  have d: "cp div 4096 = a" "cp div 64 mod 64 = x" "cp mod 64 = y"
    unfolding cp by (rule digits3[OF x y])+
  have r: "\<not> cp < 128" "\<not> cp < 2048" "cp < 65536"
    using three(7) a x y unfolding cp by linarith+
  have "utf8_encode_char cp = Some [b0, b1, b2]"
    using r three(8) by (simp add: utf8_encode_char_def d b0 b1 b2)
  then show ?thesis using three(1,9) by simp
next
  case (four b0 b1 b2 b3 r)
  define a where "a = b0 - 240"
  define x where "x = b1 - 128"
  define y where "y = b2 - 128"
  define z where "z = b3 - 128"
  have b0: "b0 = 240 + a" using four(2) by (simp add: a_def)
  have b1: "b1 = 128 + x" and x: "x < 64"
    using four(4) by (auto simp: x_def continuation_def)
  have b2: "b2 = 128 + y" and y: "y < 64"
    using four(5) by (auto simp: y_def continuation_def)
  have b3: "b3 = 128 + z" and z: "z < 64"
    using four(6) by (auto simp: z_def continuation_def)
  have cp: "cp = a * 262144 + x * 4096 + y * 64 + z"
    using four(7) by (simp only: a_def x_def y_def z_def)
  have d: "cp div 262144 = a" "cp div 4096 mod 64 = x" "cp div 64 mod 64 = y" "cp mod 64 = z"
    unfolding cp by (rule digits4[OF x y z])+
  have r: "\<not> cp < 128" "\<not> cp < 2048" "\<not> cp < 65536" "cp \<le> 1114111"
    using four(8,9) by linarith+
  have "utf8_encode_char cp = Some [b0, b1, b2, b3]"
    using r by (simp add: utf8_encode_char_def d b0 b1 b2 b3)
  then show ?thesis using four(1,10) by simp
qed

lemma utf8_roundtrip:
  "utf8_decode bs = Some s \<Longrightarrow> utf8_encode s = Some bs"
proof (induction bs arbitrary: s rule: utf8_decode.induct)
  case (1 bs)
  show ?case
  proof (cases "bs = []")
    case True
    with 1(2) show ?thesis by (simp add: utf8_decode.simps)
  next
    case False
    with 1(2) obtain cp n rest where f: "utf8_first bs = Some (cp, n)"
      and d: "utf8_decode (drop n bs) = Some rest" and s: "s = cp # rest"
      and n: "0 < n" "n \<le> length bs"
      by (subst (asm) utf8_decode.simps) (auto split: option.splits if_splits)
    from utf8_first_encode[OF f] have e: "utf8_encode_char cp = Some (take n bs)" by simp
    from 1(1)[OF False f refl _ d] n have "utf8_encode rest = Some (drop n bs)" by simp
    then show ?thesis by (simp add: s e)
  qed
qed

lemma universal_newlines_id: "13 \<notin> set s \<Longrightarrow> universal_newlines s = s"
  by (induction s rule: universal_newlines.induct) auto

lemma write_newlines_lf: "write_newlines [10] s = s"
  by (induction s) (simp_all add: write_newlines_def)

section \<open>Printing\<close>

lemma print_lines_single:
  "print_lines env [line] =
     (if stdout_encodes env line then ([line], None) else ([], Some UnicodeEncodeError))"
  by simp

lemma print_lines_all:
  "(\<forall>line\<in>set ls. stdout_encodes env line) \<Longrightarrow> print_lines env ls = (ls, None)"
  by (induction ls) simp_all

lemma print_lines_shown:
  "print_lines env ls = (shown, failure) \<Longrightarrow> set shown \<subseteq> set ls"
  by (induction ls arbitrary: shown failure) (auto split: if_splits prod.splits)

lemma print_lines_done:
  "print_lines env ls = (shown, None) \<Longrightarrow> shown = ls"
  by (induction ls arbitrary: shown) (auto split: if_splits prod.splits)

lemma print_lines_failed:
  "print_lines env (ls @ [line]) = (shown, Some e) \<Longrightarrow>
     set shown \<subseteq> set ls \<and> e = UnicodeEncodeError"
  by (induction ls arbitrary: shown) (auto split: if_splits prod.splits)

section \<open>Language Detector\<close>

text \<open>
  Claim C3, as amended. For every input string, the empty one included, the value that
  \<open>detect_language\<close> returns is one of \<open>en\<close>, \<open>ru\<close>, \<open>de\<close>. When the heuristic
  raises, the result is \<open>en\<close> and nothing is printed; a supported code is returned as it
  is. When the heuristic returns a code outside the supported set, the function prints a
  warning and returns \<open>en\<close>, unless the standard output cannot encode the warning: the
  \<open>print\<close> of line 44 then raises \<open>UnicodeEncodeError\<close>, which nothing catches.
\<close>

theorem detect_language_supported:
  "(\<forall>lang. snd (detect_language env text) = Inr lang \<longrightarrow> lang \<in> {LANG_EN, LANG_RU, LANG_DE})
    \<and> (\<forall>failure. detect env text = Inl failure \<longrightarrow>
          detect_language env text = ([], Inr LANG_EN))
    \<and> (\<forall>code. detect env text = Inr code \<and> code \<in> {LANG_EN, LANG_RU, LANG_DE} \<longrightarrow>
          detect_language env text = ([], Inr code))
    \<and> (\<forall>code. detect env text = Inr code \<and> code \<notin> {LANG_EN, LANG_RU, LANG_DE} \<longrightarrow>
          detect_language env text =
            (if stdout_encodes env (FallbackWarning code)
             then ([FallbackWarning code], Inr LANG_EN)
             else ([], Inl UnicodeEncodeError)))"
proof (cases "detect env text")
  case (Inl failure)
  then have "detect_language env text = ([], Inr LANG_EN)"
    by (simp add: detect_language_def SUPPORTED_LANGS_def)
  with Inl show ?thesis by simp
next
  case (Inr code)
  show ?thesis
  proof (cases "code \<in> {LANG_EN, LANG_RU, LANG_DE}")
    case True
    then have "detect_language env text = ([], Inr code)"
      using Inr by (simp add: detect_language_def SUPPORTED_LANGS_def)
    with Inr True show ?thesis by auto
  next
    case False
    then have "detect_language env text =
        (if stdout_encodes env (FallbackWarning code)
         then ([FallbackWarning code], Inr LANG_EN)
         else ([], Inl UnicodeEncodeError))"
      using Inr by (simp add: detect_language_def SUPPORTED_LANGS_def)
    with Inr False show ?thesis by auto
  qed
qed

theorem detect_language_supported_witness:
  "detect_language (mock_environment sample_files) [] = ([], Inr LANG_EN)
    \<and> detect_language (mock_environment sample_files) [1055, 10] = ([], Inr LANG_EN)
    \<and> detect_language (mock_environment sample_files) BONJOUR =
        ([FallbackWarning [102, 114]], Inr LANG_EN)"
proof -
  let ?E = "mock_environment sample_files"
  have 1: "detect ?E [] = Inl ''No features in text.''"
    by (simp add: mock_environment_def py_strip_def)
  have 2: "detect ?E [1055, 10] = Inr LANG_EN \<and> LANG_EN \<in> {LANG_EN, LANG_RU, LANG_DE}"
    by (simp add: mock_environment_def py_strip_def py_isspace_def BONJOUR_def)
  have 3: "detect ?E BONJOUR = Inr [102, 114] \<and> [102, 114] \<notin> {LANG_EN, LANG_RU, LANG_DE}"
    by (simp add: mock_environment_def py_strip_def py_isspace_def BONJOUR_def
        LANG_EN_def LANG_RU_def LANG_DE_def)
  have 4: "stdout_encodes ?E (FallbackWarning [102, 114])"
    by (simp add: mock_environment_def)
  from detect_language_supported[of ?E "[]"] 1
  have a: "detect_language ?E [] = ([], Inr LANG_EN)" by blast
  from detect_language_supported[of ?E "[1055, 10]"] 2
  have b: "detect_language ?E [1055, 10] = ([], Inr LANG_EN)" by blast
  from detect_language_supported[of ?E BONJOUR] 3
  have "detect_language ?E BONJOUR =
      (if stdout_encodes ?E (FallbackWarning [102, 114])
       then ([FallbackWarning [102, 114]], Inr LANG_EN)
       else ([], Inl UnicodeEncodeError))" by blast
  with 4 have c: "detect_language ?E BONJOUR = ([FallbackWarning [102, 114]], Inr LANG_EN)"
    by simp
  from a b c show ?thesis by simp
qed

theorem detect_language_raises_counterexample:
  "detect (ascii_environment sample_files) BONJOUR = Inr [102, 114]
    \<and> detect_language (ascii_environment sample_files) BONJOUR = ([], Inl UnicodeEncodeError)"
  by (simp add: detect_language_def ascii_environment_def mock_environment_def ascii_stdout_def
      py_strip_def py_isspace_def BONJOUR_def SUPPORTED_LANGS_def
      LANG_EN_def LANG_RU_def LANG_DE_def)

lemma detect_language_cases:
  "detect_language env text \<in>
     {([], Inr LANG_EN), ([], Inr LANG_RU), ([], Inr LANG_DE), ([], Inl UnicodeEncodeError)}
   \<or> (\<exists>code. detect_language env text = ([FallbackWarning code], Inr LANG_EN))"
  by (auto simp: detect_language_def SUPPORTED_LANGS_def Let_def split: sum.splits if_splits)

section \<open>Summarizer\<close>

lemma py_strip_empty_iff: "py_strip s = [] \<longleftrightarrow> (\<forall>c\<in>set s. py_isspace c)"
proof
  assume "\<forall>c\<in>set s. py_isspace c"
  then have "dropWhile py_isspace s = []" by simp
  then show "py_strip s = []" unfolding py_strip_def by (simp only: rev.simps dropWhile.simps)
next
  assume e: "py_strip s = []"
  show "\<forall>c\<in>set s. py_isspace c"
  proof (rule ccontr)
    assume "\<not> (\<forall>c\<in>set s. py_isspace c)"
    then have ne: "dropWhile py_isspace s \<noteq> []" by simp
    then have h: "\<not> py_isspace (hd (dropWhile py_isspace s))" by (rule hd_dropWhile)
    from e have "\<forall>c\<in>set (dropWhile py_isspace s). py_isspace c"
      by (simp add: py_strip_def)
    with ne h show False by simp
  qed
qed

text \<open>
  Claim C5. For every empty or whitespace-only text, every language code and every
  compression level, the summarizer returns the literal empty-input indicator at once: the
  trace of calls to the tokenizer and the model is empty.
\<close>

theorem summarize_text_blank:
  assumes "\<forall>c\<in>set text. py_isspace c"
  shows "summarize_text env text lang compression max_input_length = ([], Inr EMPTY_TEXT)"
  using assms by (simp add: summarize_text_def py_strip_empty_iff)

theorem summarize_text_blank_witness:
  "summarize_text (mock_environment sample_files) [32, 10, 9] LANG_RU 30 1024
      = ([], Inr EMPTY_TEXT)
    \<and> summarize_text (mock_environment sample_files) [] LANG_EN 20 1024 = ([], Inr EMPTY_TEXT)"
  using summarize_text_blank[of "[32, 10, 9]" "mock_environment sample_files" LANG_RU 30 1024]
    summarize_text_blank[of "[]" "mock_environment sample_files" LANG_EN 20 1024]
  by (simp add: py_isspace_def)

lemma length_bounds_100_30:
  "length_bounds 100 30 = Inr \<lparr>target_len = 30, max_len = 30, min_len = 21\<rparr>"
proof -
  have "int_of_percentage 100 30 = Inr (int 100 * 30 div 100)"
    by (rule int_of_percentage_small) simp_all
  then show ?thesis by (simp add: length_bounds_def int_of_scaled_30)
qed

lemma summarize_text_services:
  assumes "py_strip doc \<noteq> []" "load_tokenizer env = None" "load_model env = None"
    and "encode_input env doc 1024 = Inr ids" "tokenize env doc = Inr toks"
    and "length toks = 100" "generate env ids 30 21 = Inr [out]" "decode env out = Inr summary"
  shows "summarize_text env doc lang 30 1024 =
    ([LoadTokenizer, LoadModel, EncodeInput 1024, Tokenize, Generate 30 21, Decode],
     Inr summary)"
  using assms
  by (simp add: summarize_text_def and_then_def call_def pure_def first_output_def
      length_bounds_100_30)

section \<open>Text Loader\<close>

lemma isfile_read_bytes:
  "isfile fs path \<longleftrightarrow> (\<exists>content. read_bytes fs path = Inr content)"
  by (auto simp: isfile_def read_bytes_def split: option.splits fs_entry.splits)

lemma read_text_not_missing:
  assumes "isfile fs path"
  shows "read_text fs path \<noteq> Inl FileNotFoundError" "read_text fs path \<noteq> Inl UnsupportedFormat"
  using assms
  by (auto simp: isfile_def read_bytes_def read_text_def split: option.splits fs_entry.splits)

text \<open>
  Claim C6. \<open>load_text\<close> fails with the file-not-found error exactly when the path does not
  name an existing regular file, whatever its extension, and with the unsupported-format
  error exactly when the file exists and its lower-cased path ends neither in \<open>.txt\<close> nor in
  \<open>.pdf\<close>; the existence check comes first.
\<close>

theorem load_text_errors:
  "(load_text env path = Inl FileNotFoundError \<longleftrightarrow> \<not> isfile (files env) path)
    \<and> (load_text env path = Inl UnsupportedFormat \<longleftrightarrow>
          isfile (files env) path
          \<and> \<not> py_endswith (py_lower path) DOT_TXT
          \<and> \<not> py_endswith (py_lower path) DOT_PDF)"
proof (cases "isfile (files env) path")
  case False
  then show ?thesis by (simp add: load_text_def)
next
  case True
  then obtain content where c: "read_bytes (files env) path = Inr content"
    by (auto simp: isfile_read_bytes)
  show ?thesis
    using True read_text_not_missing[OF True]
    by (auto simp: load_text_def c split: sum.splits)
qed

theorem load_text_errors_witness:
  "load_text (mock_environment sample_files) [120, 46, 116, 120, 116] = Inl FileNotFoundError
    \<and> load_text (mock_environment sample_files) [100, 46, 116, 120, 116] = Inl FileNotFoundError
    \<and> load_text (mock_environment sample_files) [99, 46, 109, 100] = Inl UnsupportedFormat
    \<and> load_text (mock_environment sample_files) [120, 46, 109, 100] = Inl FileNotFoundError"
  using load_text_errors[of "mock_environment sample_files" "[120, 46, 116, 120, 116]"]
    load_text_errors[of "mock_environment sample_files" "[100, 46, 116, 120, 116]"]
    load_text_errors[of "mock_environment sample_files" "[99, 46, 109, 100]"]
    load_text_errors[of "mock_environment sample_files" "[120, 46, 109, 100]"]
  by (simp add: mock_environment_def sample_files_def isfile_def py_endswith_def py_lower_def
      DOT_TXT_def DOT_PDF_def)

text \<open>
  Claim C7, as amended. For every existing file whose path ends in \<open>.txt\<close>
  (case-insensitively), \<open>load_text\<close> returns the content decoded as UTF-8 with every
  CR LF pair and every lone CR replaced by LF, and raises a decoding error when the content
  is not valid UTF-8. When the decoded text has no carriage return it is returned as it is,
  and its UTF-8 encoding is the file's content byte for byte.
\<close>

theorem load_text_txt_decoded:
  assumes "files env path = Some (RegularFile content)"
    and "py_endswith (py_lower path) DOT_TXT"
  shows "load_text env path =
      (case utf8_decode content of
         None \<Rightarrow> Inl UnicodeDecodeError
       | Some s \<Rightarrow> Inr (universal_newlines s))
    \<and> (\<forall>s. utf8_decode content = Some s \<and> 13 \<notin> set s \<longrightarrow>
          load_text env path = Inr s \<and> utf8_encode s = Some content)"
proof -
  have f: "isfile (files env) path" using assms(1) by (simp add: isfile_def)
  have l: "load_text env path =
      (case utf8_decode content of
         None \<Rightarrow> Inl UnicodeDecodeError
       | Some s \<Rightarrow> Inr (universal_newlines s))"
    using assms f by (simp add: load_text_def read_text_def read_bytes_def)
  show ?thesis
  proof (intro conjI allI impI)
    show "load_text env path =
      (case utf8_decode content of
         None \<Rightarrow> Inl UnicodeDecodeError
       | Some s \<Rightarrow> Inr (universal_newlines s))" by (fact l)
  next
    fix s assume "utf8_decode content = Some s \<and> 13 \<notin> set s"
    then show "load_text env path = Inr s" by (simp add: l universal_newlines_id)
  next
    fix s assume "utf8_decode content = Some s \<and> 13 \<notin> set s"
    then show "utf8_encode s = Some content" by (simp add: utf8_roundtrip)
  qed
qed

theorem load_text_txt_decoded_witness:
  "files (mock_environment sample_files) [98, 46, 84, 88, 84] = Some (RegularFile [208, 159, 10])
    \<and> py_endswith (py_lower [98, 46, 84, 88, 84]) DOT_TXT
    \<and> load_text (mock_environment sample_files) [98, 46, 84, 88, 84] = Inr [1055, 10]
    \<and> utf8_encode [1055, 10] = Some [208, 159, 10]"
proof -
  have f: "files (mock_environment sample_files) [98, 46, 84, 88, 84]
      = Some (RegularFile [208, 159, 10])"
    by (simp add: mock_environment_def sample_files_def)
  have e: "py_endswith (py_lower [98, 46, 84, 88, 84]) DOT_TXT"
    by (simp add: py_endswith_def py_lower_def DOT_TXT_def)
  have d: "utf8_decode [208, 159, 10] = Some [1055, 10] \<and> 13 \<notin> set [1055, 10::nat]"
    by (simp add: utf8_decode_Cons utf8_decode_Nil utf8_first_simps continuation_def)
  from load_text_txt_decoded[OF f e] d
  have "load_text (mock_environment sample_files) [98, 46, 84, 88, 84] = Inr [1055, 10]
      \<and> utf8_encode [1055, 10] = Some [208, 159, 10]" by blast
  with f e show ?thesis by blast
qed

theorem load_text_crlf_counterexample:
  "files (mock_environment sample_files) [97, 46, 116, 120, 116]
      = Some (RegularFile [97, 13, 10, 98])
    \<and> load_text (mock_environment sample_files) [97, 46, 116, 120, 116] = Inr [97, 10, 98]
    \<and> utf8_encode [97, 10, 98] = Some [97, 10, 98]
    \<and> [97, 10, 98] \<noteq> [97, 13, 10, 98 :: nat]"
proof -
  have f: "files (mock_environment sample_files) [97, 46, 116, 120, 116]
      = Some (RegularFile [97, 13, 10, 98])"
    by (simp add: mock_environment_def sample_files_def)
  have e: "py_endswith (py_lower [97, 46, 116, 120, 116]) DOT_TXT"
    by (simp add: py_endswith_def py_lower_def DOT_TXT_def)
  have d: "utf8_decode [97, 13, 10, 98] = Some [97, 13, 10, 98]"
    by (simp add: utf8_decode_Cons utf8_decode_Nil utf8_first_simps)
  have i: "isfile (files (mock_environment sample_files)) [97, 46, 116, 120, 116]"
    using f by (simp add: isfile_def)
  have "load_text (mock_environment sample_files) [97, 46, 116, 120, 116] = Inr [97, 10, 98]"
    using i e by (simp add: load_text_def read_text_def read_bytes_def f d)
  moreover have "utf8_encode [97, 10, 98] = Some [97, 10, 98]"
    by (simp add: utf8_encode_char_def)
  ultimately show ?thesis using f by simp
qed

lemma sample_load:
  assumes "files env = sample_files"
  shows "load_text env [98, 46, 84, 88, 84] = Inr [1055, 10]"
    and "load_text env [120] = Inl FileNotFoundError"
    and "load_text env [101, 46, 116, 120, 116] = Inr [32, 10]"
proof -
  have d: "utf8_decode [208, 159, 10] = Some [1055, 10]" "utf8_decode [32, 10] = Some [32, 10]"
    by (simp_all add: utf8_decode_Cons utf8_decode_Nil utf8_first_simps continuation_def)
  show "load_text env [98, 46, 84, 88, 84] = Inr [1055, 10]"
    by (simp add: load_text_def isfile_def read_text_def read_bytes_def assms sample_files_def
        py_endswith_def py_lower_def DOT_TXT_def d)
  show "load_text env [120] = Inl FileNotFoundError"
    by (simp add: load_text_def isfile_def assms sample_files_def)
  show "load_text env [101, 46, 116, 120, 116] = Inr [32, 10]"
    by (simp add: load_text_def isfile_def read_text_def read_bytes_def assms sample_files_def
        py_endswith_def py_lower_def DOT_TXT_def d)
qed

section \<open>CLI Driver\<close>

subsection \<open>The argument parser\<close>

lemma lang_distinct:
  "LANG_AUTO \<noteq> LANG_EN" "LANG_AUTO \<noteq> LANG_RU" "LANG_AUTO \<noteq> LANG_DE"
  "LANG_EN \<noteq> LANG_RU" "LANG_EN \<noteq> LANG_DE" "LANG_RU \<noteq> LANG_DE"
  by (simp_all add: LANG_AUTO_def LANG_EN_def LANG_RU_def LANG_DE_def)

lemma parse_items_choices:
  "parse_items ns a = Parsed args \<Longrightarrow>
   ns_language ns \<in> {LANG_AUTO, LANG_EN, LANG_RU, LANG_DE} \<Longrightarrow>
   ns_compression ns \<in> {20, 30, 50} \<Longrightarrow>
   arg_language args \<in> {LANG_AUTO, LANG_EN, LANG_RU, LANG_DE}
     \<and> arg_compression args \<in> {20, 30, 50}"
  by (induction ns a rule: parse_items.induct) (auto split: option.splits if_splits)

lemma parse_items_invalid_language:
  "HelpFlag \<notin> set before \<Longrightarrow> l \<notin> {LANG_AUTO, LANG_EN, LANG_RU, LANG_DE} \<Longrightarrow>
   parse_items ns (before @ LanguageOpt l # rest) = UsageFailure"
  by (induction ns before rule: parse_items.induct) auto

lemma parse_items_output_absent:
  "parse_items ns a = Parsed args \<Longrightarrow> \<forall>p. OutputOpt p \<notin> set a \<Longrightarrow>
   arg_output args = ns_output ns"
  by (induction ns a rule: parse_items.induct) (auto split: option.splits if_splits)

lemma parse_items_output_present:
  "parse_items ns a = Parsed args \<Longrightarrow> OutputOpt q \<in> set a \<Longrightarrow>
   \<exists>p. arg_output args = Some p \<and> OutputOpt p \<in> set a"
proof (induction ns a arbitrary: q rule: parse_items.induct)
  case (7 ns path rest)
  show ?case
  proof (cases "\<exists>p. OutputOpt p \<in> set rest")
    case True
    then obtain p where "OutputOpt p \<in> set rest" by blast
    with 7 show ?thesis by auto
  next
    case False
    with 7(2) have "arg_output args = Some path"
      by (auto dest!: parse_items_output_absent)
    then show ?thesis by auto
  qed
qed (auto split: option.splits if_splits)

lemma parse_args_Parsed:
  assumes "parse_args a = Parsed args"
  shows "arg_language args \<in> {LANG_AUTO, LANG_EN, LANG_RU, LANG_DE}"
    and "arg_compression args \<in> {20, 30, 50}"
    and "arg_output args = None \<longleftrightarrow> (\<forall>p. OutputOpt p \<notin> set a)"
    and "arg_output args = Some q \<Longrightarrow> OutputOpt q \<in> set a"
proof -
  let ?ns = "\<lparr>ns_input = None, ns_language = LANG_AUTO, ns_compression = 30,
      ns_output = None, ns_extras = False\<rparr>"
  have p: "parse_items ?ns a = Parsed args" using assms by (simp add: parse_args_def)
  from parse_items_choices[OF p]
  show "arg_language args \<in> {LANG_AUTO, LANG_EN, LANG_RU, LANG_DE}"
    and "arg_compression args \<in> {20, 30, 50}" by simp_all
  show "arg_output args = None \<longleftrightarrow> (\<forall>p. OutputOpt p \<notin> set a)"
  proof
    assume n: "arg_output args = None"
    show "\<forall>p. OutputOpt p \<notin> set a"
    proof (intro allI notI)
      fix p assume "OutputOpt p \<in> set a"
      from parse_items_output_present[OF p this] n show False by simp
    qed
  next
    assume "\<forall>p. OutputOpt p \<notin> set a"
    from parse_items_output_absent[OF p this] show "arg_output args = None" by simp
  qed
  show "OutputOpt q \<in> set a" if q: "arg_output args = Some q"
  proof (cases "\<forall>p. OutputOpt p \<notin> set a")
    case True
    from parse_items_output_absent[OF p True] q show ?thesis by simp
  next
    case False
    then obtain p' where "OutputOpt p' \<in> set a" by blast
    from parse_items_output_present[OF p this] q show ?thesis by auto
  qed
qed

lemma parse_args_invalid_language:
  assumes "HelpFlag \<notin> set before" "l \<notin> {LANG_AUTO, LANG_EN, LANG_RU, LANG_DE}"
  shows "parse_args (before @ LanguageOpt l # rest) = UsageFailure"
  unfolding parse_args_def using assms by (rule parse_items_invalid_language)

subsection \<open>The steps of the driver\<close>

lemma resolve_language_cases:
  assumes "parse_args a = Parsed args"
  shows "(\<exists>lang. resolve_language env args doc = ([], Inr lang) \<and> lang \<in> SUPPORTED_LANGS)
    \<or> resolve_language env args doc = ([], Inl UnicodeEncodeError)
    \<or> (\<exists>code. resolve_language env args doc = ([FallbackWarning code], Inr LANG_EN))"
proof (cases "arg_language args = LANG_AUTO")
  case True
  then show ?thesis
    using detect_language_cases[of env doc]
    by (auto simp: resolve_language_def SUPPORTED_LANGS_def)
next
  case False
  with parse_args_Parsed(1)[OF assms] show ?thesis
    by (auto simp: resolve_language_def SUPPORTED_LANGS_def)
qed

lemma resolve_language_supported:
  assumes "parse_args a = Parsed args" "resolve_language env args doc = (warned, Inr lang)"
  shows "lang \<in> SUPPORTED_LANGS"
    and "\<forall>s. SummaryText s \<notin> set warned" "\<forall>p. SavedMsg p \<notin> set warned"
    and "\<forall>l. UnsupportedLangMsg l \<notin> set warned"
  using resolve_language_cases[OF assms(1), of env doc] assms(2)
  by (auto simp: SUPPORTED_LANGS_def)

lemma LANG_MAP_supported:
  assumes "lang \<in> SUPPORTED_LANGS"
  shows "\<exists>name. LANG_MAP lang = Some name"
  using assms lang_distinct by (auto simp: SUPPORTED_LANGS_def LANG_MAP_def)

lemma report_failure_eq:
  "report_failure env shown line =
     \<lparr>exit_code = 1,
        printed = shown @ (if stdout_encodes env line then [line]
                           else [Traceback UnicodeEncodeError]),
        files_after = files env, events = []\<rparr>"
  by (simp add: report_failure_def uncaught_def)

lemma main_usage:
  assumes "parse_args a = UsageFailure"
  shows "main env a =
    \<lparr>exit_code = 2, printed = [UsageError], files_after = files env, events = []\<rparr>"
  using assms by (simp add: main_def)

lemma main_help:
  assumes "parse_args a = HelpRequested"
  shows "main env a =
    (if stdout_encodes env HelpText
     then \<lparr>exit_code = 0, printed = [HelpText], files_after = files env, events = []\<rparr>
     else \<lparr>exit_code = 1, printed = [Traceback UnicodeEncodeError],
             files_after = files env, events = []\<rparr>)"
  using assms by (simp add: main_def uncaught_def)

lemma main_load_error:
  assumes "parse_args a = Parsed args" "load_text env (arg_input args) = Inl e"
  shows "main env a =
    \<lparr>exit_code = 1,
       printed = (if stdout_encodes env (LoadErrorMsg e) then [LoadErrorMsg e]
                  else [Traceback UnicodeEncodeError]),
       files_after = files env, events = []\<rparr>"
  using assms by (simp add: main_def report_failure_eq)

lemma main_blank:
  assumes "parse_args a = Parsed args" "load_text env (arg_input args) = Inr doc"
    and "py_strip doc = []"
  shows "main env a =
    \<lparr>exit_code = 1,
       printed = (if stdout_encodes env EmptyFileMsg then [EmptyFileMsg]
                  else [Traceback UnicodeEncodeError]),
       files_after = files env, events = []\<rparr>"
  using assms by (simp add: main_def report_failure_eq)

lemma main_summarize:
  assumes "parse_args a = Parsed args" "load_text env (arg_input args) = Inr doc"
    and "py_strip doc \<noteq> []" "resolve_language env args doc = (warned, Inr lang)"
  shows "main env a = summarize_and_print env args doc warned lang"
  using assms resolve_language_supported(1)[OF assms(1,4)] by (simp add: main_def)

lemma main_displayed:
  assumes "parse_args a = Parsed args" "load_text env (arg_input args) = Inr doc"
    and "py_strip doc \<noteq> []" "resolve_language env args doc = (warned, Inr lang)"
    and "LANG_MAP lang = Some name"
    and "stdout_encodes env (LanguageMsg name lang)"
    and "stdout_encodes env (CompressionMsg (arg_compression args))"
    and "stdout_encodes env ProgressMsg"
    and "summarize_text env doc lang (arg_compression args) 1024 = (evs, Inr summary)"
    and "stdout_encodes env BannerRule" "stdout_encodes env BannerTitle"
    and "stdout_encodes env (SummaryText summary)"
  shows "main env a =
    save_summary env args
      (warned @ [LanguageMsg name lang, CompressionMsg (arg_compression args), ProgressMsg,
                 BannerRule, BannerTitle, BannerRule, SummaryText summary])
      evs summary"
  unfolding main_summarize[OF assms(1-4)] using assms(5-12)
  by (simp add: summarize_and_print_def)

lemma save_summary_skipped:
  assumes "arg_output args = None \<or> arg_output args = Some []"
  shows "save_summary env args shown evs summary =
    \<lparr>exit_code = 0, printed = shown, files_after = files env, events = evs\<rparr>"
  using assms by (auto simp: save_summary_def)

lemma save_summary_refused:
  assumes "arg_output args = Some path" "path \<noteq> []"
    and "files env path = Some OtherEntry \<or> cannot_open env path \<noteq> None"
  shows "\<exists>e. save_summary env args shown evs summary =
    \<lparr>exit_code = 1, printed = shown @ [Traceback e], files_after = files env, events = evs\<rparr>"
  using assms by (auto simp: save_summary_def write_text_def uncaught_def)

lemma save_summary_unencodable:
  assumes "arg_output args = Some path" "path \<noteq> []"
    and "files env path \<noteq> Some OtherEntry" "cannot_open env path = None"
    and "utf8_encode (write_newlines (linesep env) summary) = None"
  shows "save_summary env args shown evs summary =
    \<lparr>exit_code = 1, printed = shown @ [Traceback UnicodeEncodeError],
       files_after = (files env)(path \<mapsto> RegularFile []), events = evs\<rparr>"
  using assms by (simp add: save_summary_def write_text_def uncaught_def)

lemma save_summary_written:
  assumes "arg_output args = Some path" "path \<noteq> []"
    and "files env path \<noteq> Some OtherEntry" "cannot_open env path = None"
    and "utf8_encode (write_newlines (linesep env) summary) = Some content"
  shows "save_summary env args shown evs summary =
    \<lparr>exit_code = (if stdout_encodes env (SavedMsg path) then 0 else 1),
       printed = shown @ (if stdout_encodes env (SavedMsg path) then [SavedMsg path]
                          else [Traceback UnicodeEncodeError]),
       files_after = (files env)(path \<mapsto> RegularFile content), events = evs\<rparr>"
  using assms by (simp add: save_summary_def write_text_def uncaught_def)

lemma save_summary_keeps:
  "x \<in> set shown \<Longrightarrow> x \<in> set (printed (save_summary env args shown evs summary))"
  by (auto simp: save_summary_def uncaught_def split: option.splits prod.splits if_splits)

lemma save_summary_adds:
  "x \<in> set (printed (save_summary env args shown evs summary)) \<Longrightarrow>
   x \<in> set shown \<or> (\<exists>e. x = Traceback e) \<or> (\<exists>p. x = SavedMsg p)"
  by (auto simp: save_summary_def uncaught_def split: option.splits prod.splits if_splits)

text \<open>
  Every run ends in one of six ways: a usage error, the help, a failed load, a blank text,
  an exception before the summary is displayed, or the saving step.
\<close>

lemma main_cases:
  obtains
    (usage) "parse_args a = UsageFailure"
      "main env a =
        \<lparr>exit_code = 2, printed = [UsageError], files_after = files env, events = []\<rparr>"
  | (help_run) "parse_args a = HelpRequested"
      "main env a =
        (if stdout_encodes env HelpText
         then \<lparr>exit_code = 0, printed = [HelpText], files_after = files env, events = []\<rparr>
         else \<lparr>exit_code = 1, printed = [Traceback UnicodeEncodeError],
                 files_after = files env, events = []\<rparr>)"
  | (load_error) args e where "parse_args a = Parsed args"
      "load_text env (arg_input args) = Inl e"
      "main env a =
        \<lparr>exit_code = 1,
           printed = (if stdout_encodes env (LoadErrorMsg e) then [LoadErrorMsg e]
                      else [Traceback UnicodeEncodeError]),
           files_after = files env, events = []\<rparr>"
  | (blank) args doc where "parse_args a = Parsed args"
      "load_text env (arg_input args) = Inr doc" "py_strip doc = []"
      "main env a =
        \<lparr>exit_code = 1,
           printed = (if stdout_encodes env EmptyFileMsg then [EmptyFileMsg]
                      else [Traceback UnicodeEncodeError]),
           files_after = files env, events = []\<rparr>"
  | (stopped) args doc shown evs e where "parse_args a = Parsed args"
      "load_text env (arg_input args) = Inr doc" "py_strip doc \<noteq> []"
      "main env a =
        \<lparr>exit_code = 1, printed = shown @ [Traceback e], files_after = files env,
           events = evs\<rparr>"
      "\<forall>s. SummaryText s \<notin> set shown" "\<forall>p. SavedMsg p \<notin> set shown"
      "\<forall>l. UnsupportedLangMsg l \<notin> set shown"
  | (displayed) args doc warned lang name evs summary where "parse_args a = Parsed args"
      "load_text env (arg_input args) = Inr doc" "py_strip doc \<noteq> []"
      "resolve_language env args doc = (warned, Inr lang)"
      "summarize_text env doc lang (arg_compression args) 1024 = (evs, Inr summary)"
      "main env a =
        save_summary env args
          (warned @ [LanguageMsg name lang, CompressionMsg (arg_compression args), ProgressMsg,
                     BannerRule, BannerTitle, BannerRule, SummaryText summary])
          evs summary"
      "\<forall>s. SummaryText s \<notin> set warned" "\<forall>p. SavedMsg p \<notin> set warned"
      "\<forall>l. UnsupportedLangMsg l \<notin> set warned"
proof (cases "parse_args a")
  case UsageFailure
  then show ?thesis using main_usage[OF UsageFailure] by (rule usage)
next
  case HelpRequested
  then show ?thesis using main_help[OF HelpRequested] by (rule help_run)
next
  case (Parsed args)
  show ?thesis
  proof (cases "load_text env (arg_input args)")
    case (Inl e)
    show ?thesis using Parsed Inl main_load_error[OF Parsed Inl] by (rule load_error)
  next
    case (Inr doc)
    show ?thesis
    proof (cases "py_strip doc = []")
      case True
      show ?thesis using Parsed Inr True main_blank[OF Parsed Inr True] by (rule blank)
    next
      case False
      obtain warned res where r: "resolve_language env args doc = (warned, res)"
        by (cases "resolve_language env args doc")
      show ?thesis
      proof (cases res)
        case (Inl e)
        have w: "warned = []"
          using resolve_language_cases[OF Parsed, of env doc] r Inl by auto
        have "main env a =
            \<lparr>exit_code = 1, printed = [] @ [Traceback e], files_after = files env,
               events = []\<rparr>"
          using Parsed \<open>load_text env (arg_input args) = Inr doc\<close> False r Inl w
          by (simp add: main_def uncaught_def)
        then show ?thesis
          using Parsed \<open>load_text env (arg_input args) = Inr doc\<close> False
          by (intro stopped[of args doc "[]" e "[]"]) simp_all
      next
        case (Inr lang)
        note r' = r[unfolded Inr]
        note sup = resolve_language_supported[OF Parsed r']
        obtain name where n: "LANG_MAP lang = Some name"
          using LANG_MAP_supported[OF sup(1)] by blast
        have m: "main env a = summarize_and_print env args doc warned lang"
          by (rule main_summarize[OF Parsed \<open>load_text env (arg_input args) = Inr doc\<close> False r'])
        let ?progress = "[LanguageMsg name lang, CompressionMsg (arg_compression args),
            ProgressMsg]"
        obtain progress pf where p: "print_lines env ?progress = (progress, pf)"
          by (cases "print_lines env ?progress")
        show ?thesis
        proof (cases pf)
          case (Some e)
          have sub: "set progress \<subseteq> set ?progress" using p by (rule print_lines_shown)
          have "main env a =
              \<lparr>exit_code = 1, printed = (warned @ progress) @ [Traceback e],
                 files_after = files env, events = []\<rparr>"
            unfolding m using n p Some by (simp add: summarize_and_print_def uncaught_def)
          moreover have "\<forall>s. SummaryText s \<notin> set (warned @ progress)"
            "\<forall>p. SavedMsg p \<notin> set (warned @ progress)"
            "\<forall>l. UnsupportedLangMsg l \<notin> set (warned @ progress)"
            using sup(2-4) sub by auto
          ultimately show ?thesis
            using Parsed \<open>load_text env (arg_input args) = Inr doc\<close> False
            by (intro stopped[of args doc "warned @ progress" e "[]"])
        next
          case None
          have pd: "progress = ?progress" by (rule print_lines_done[OF p[unfolded None]])
          obtain evs sres where st:
            "summarize_text env doc lang (arg_compression args) 1024 = (evs, sres)"
            by (cases "summarize_text env doc lang (arg_compression args) 1024")
          show ?thesis
          proof (cases sres)
            case (Inl e)
            have "main env a =
                \<lparr>exit_code = 1, printed = (warned @ ?progress) @ [Traceback e],
                   files_after = files env, events = evs\<rparr>"
              unfolding m using n p None pd st Inl
              by (simp add: summarize_and_print_def uncaught_def)
            moreover have "\<forall>s. SummaryText s \<notin> set (warned @ ?progress)"
              "\<forall>p. SavedMsg p \<notin> set (warned @ ?progress)"
              "\<forall>l. UnsupportedLangMsg l \<notin> set (warned @ ?progress)"
              using sup(2-4) by auto
            ultimately show ?thesis
              using Parsed \<open>load_text env (arg_input args) = Inr doc\<close> False
              by (intro stopped[of args doc "warned @ ?progress" e evs])
          next
            case (Inr summary)
            let ?display = "[BannerRule, BannerTitle, BannerRule, SummaryText summary]"
            obtain display df where d: "print_lines env ?display = (display, df)"
              by (cases "print_lines env ?display")
            show ?thesis
            proof (cases df)
              case (Some e)
              have pl: "print_lines env ([BannerRule, BannerTitle, BannerRule]
                  @ [SummaryText summary]) = (display, Some e)" using d Some by simp
              have sub: "set display \<subseteq> set [BannerRule, BannerTitle, BannerRule]"
                using print_lines_failed[OF pl] by (rule conjunct1)
              have "main env a =
                  \<lparr>exit_code = 1, printed = (warned @ ?progress @ display) @ [Traceback e],
                     files_after = files env, events = evs\<rparr>"
                unfolding m using n p None pd st Inr d Some
                by (simp add: summarize_and_print_def uncaught_def)
              moreover have "\<forall>s. SummaryText s \<notin> set (warned @ ?progress @ display)"
                "\<forall>p. SavedMsg p \<notin> set (warned @ ?progress @ display)"
                "\<forall>l. UnsupportedLangMsg l \<notin> set (warned @ ?progress @ display)"
                using sup(2-4) sub by auto
              ultimately show ?thesis
                using Parsed \<open>load_text env (arg_input args) = Inr doc\<close> False
                by (intro stopped[of args doc "warned @ ?progress @ display" e evs])
            next
              case None': None
              have dd: "display = ?display" by (rule print_lines_done[OF d[unfolded None']])
              have "main env a =
                  save_summary env args
                    (warned @ [LanguageMsg name lang, CompressionMsg (arg_compression args),
                               ProgressMsg, BannerRule, BannerTitle, BannerRule,
                               SummaryText summary])
                    evs summary"
                unfolding m using n p None pd st Inr d None' dd
                by (simp add: summarize_and_print_def)
              with Parsed \<open>load_text env (arg_input args) = Inr doc\<close> False r'
                st[unfolded Inr]
              show ?thesis using sup(2-4) by (rule displayed)
            qed
          qed
        qed
      qed
    qed
  qed
qed

lemma save_summary_exit:
  "exit_code (save_summary env args shown evs summary) = 0
    \<or> exit_code (save_summary env args shown evs summary) = 1"
  by (auto simp: save_summary_def uncaught_def split: option.splits prod.splits if_splits)

lemma save_summary_cases:
  assumes "arg_output args = Some path" "path \<noteq> []"
  shows "if files env path = Some OtherEntry \<or> cannot_open env path \<noteq> None
     then \<exists>e. save_summary env args shown evs summary =
            \<lparr>exit_code = 1, printed = shown @ [Traceback e], files_after = files env,
               events = evs\<rparr>
     else case utf8_encode (write_newlines (linesep env) summary) of
            None \<Rightarrow>
              save_summary env args shown evs summary =
                \<lparr>exit_code = 1, printed = shown @ [Traceback UnicodeEncodeError],
                   files_after = (files env)(path \<mapsto> RegularFile []), events = evs\<rparr>
          | Some content \<Rightarrow>
              save_summary env args shown evs summary =
                \<lparr>exit_code = (if stdout_encodes env (SavedMsg path) then 0 else 1),
                   printed = shown @ (if stdout_encodes env (SavedMsg path)
                                      then [SavedMsg path]
                                      else [Traceback UnicodeEncodeError]),
                   files_after = (files env)(path \<mapsto> RegularFile content), events = evs\<rparr>"
proof (cases "files env path = Some OtherEntry \<or> cannot_open env path \<noteq> None")
  case True
  from save_summary_refused[OF assms True] True show ?thesis by (simp only: if_True)
next
  case False
  then have ok: "files env path \<noteq> Some OtherEntry" "cannot_open env path = None" by simp_all
  show ?thesis
  proof (cases "utf8_encode (write_newlines (linesep env) summary)")
    case None
    from save_summary_unencodable[OF assms ok None] False None show ?thesis by simp
  next
    case (Some content)
    from save_summary_written[OF assms ok Some] False Some show ?thesis by simp
  qed
qed

subsection \<open>Runs in the example environments\<close>

lemma mock_fields [simp]:
  "files (mock_environment fs) = fs" "stdout_encodes (mock_environment fs) line"
  "cannot_open (mock_environment fs) path = None" "linesep (mock_environment fs) = [10]"
  by (simp_all add: mock_environment_def)

lemma crlf_fields [simp]:
  "files (crlf_environment fs) = fs" "stdout_encodes (crlf_environment fs) line"
  "cannot_open (crlf_environment fs) path = None" "linesep (crlf_environment fs) = [13, 10]"
  by (simp_all add: crlf_environment_def mock_environment_def)

lemma ascii_fields [simp]:
  "files (ascii_environment fs) = fs" "stdout_encodes (ascii_environment fs) = ascii_stdout"
  by (simp_all add: ascii_environment_def mock_environment_def)

lemma parse_sample:
  "parse_args [InputOpt path] =
     Parsed \<lparr>arg_input = path, arg_language = LANG_AUTO, arg_compression = 30,
              arg_output = None\<rparr>"
  "parse_args [InputOpt path, OutputOpt target] =
     Parsed \<lparr>arg_input = path, arg_language = LANG_AUTO, arg_compression = 30,
              arg_output = Some target\<rparr>"
  "parse_args [InputOpt path, OutputOpt target, HelpFlag] = HelpRequested"
  "parse_args [InputOpt path, LanguageOpt [102, 114]] = UsageFailure"
  "parse_args [HelpFlag, LanguageOpt [102, 114]] = HelpRequested"
  by (simp_all add: parse_args_def LANG_AUTO_def LANG_EN_def LANG_RU_def LANG_DE_def)

lemma sample_run:
  assumes "files env = sample_files" "detect env [1055, 10] = Inr LANG_EN"
    and "load_tokenizer env = None" "load_model env = None"
    and "encode_input env [1055, 10] 1024 = Inr ids" "tokenize env [1055, 10] = Inr toks"
    and "length toks = 100" "generate env ids 30 21 = Inr [out]" "decode env out = Inr summary"
    and "\<And>line. stdout_encodes env line"
    and "parse_args a = Parsed \<lparr>arg_input = [98, 46, 84, 88, 84], arg_language = LANG_AUTO,
           arg_compression = 30, arg_output = target\<rparr>"
  shows "main env a =
    save_summary env
      \<lparr>arg_input = [98, 46, 84, 88, 84], arg_language = LANG_AUTO, arg_compression = 30,
         arg_output = target\<rparr>
      [LanguageMsg [101, 110, 103, 108, 105, 115, 104] LANG_EN, CompressionMsg 30, ProgressMsg,
       BannerRule, BannerTitle, BannerRule, SummaryText summary]
      [LoadTokenizer, LoadModel, EncodeInput 1024, Tokenize, Generate 30 21, Decode]
      summary"
proof -
  let ?args = "\<lparr>arg_input = [98, 46, 84, 88, 84], arg_language = LANG_AUTO,
      arg_compression = 30, arg_output = target\<rparr>"
  have l: "load_text env (arg_input ?args) = Inr [1055, 10]"
    using sample_load(1)[OF assms(1)] by simp
  have n: "py_strip [1055, 10] \<noteq> []" by (simp add: py_strip_def py_isspace_def)
  have r: "resolve_language env ?args [1055, 10] = ([], Inr LANG_EN)"
    by (simp add: resolve_language_def detect_language_def assms(2) SUPPORTED_LANGS_def)
  have s: "summarize_text env [1055, 10] LANG_EN (arg_compression ?args) 1024 =
      ([LoadTokenizer, LoadModel, EncodeInput 1024, Tokenize, Generate 30 21, Decode],
       Inr summary)"
    using summarize_text_services[OF n assms(3-9)] by simp
  have m: "LANG_MAP LANG_EN = Some [101, 110, 103, 108, 105, 115, 104]"
    using lang_distinct by (simp add: LANG_MAP_def)
  from main_displayed[OF assms(11) l n r m assms(10) assms(10) assms(10) s
      assms(10) assms(10) assms(10)]
  show ?thesis by simp
qed

lemma mock_run:
  assumes "parse_args a = Parsed \<lparr>arg_input = [98, 46, 84, 88, 84], arg_language = LANG_AUTO,
           arg_compression = 30, arg_output = target\<rparr>"
  shows "main (mock_environment sample_files) a =
    save_summary (mock_environment sample_files)
      \<lparr>arg_input = [98, 46, 84, 88, 84], arg_language = LANG_AUTO, arg_compression = 30,
         arg_output = target\<rparr>
      [LanguageMsg [101, 110, 103, 108, 105, 115, 104] LANG_EN, CompressionMsg 30, ProgressMsg,
       BannerRule, BannerTitle, BannerRule, SummaryText [88]]
      [LoadTokenizer, LoadModel, EncodeInput 1024, Tokenize, Generate 30 21, Decode]
      [88]"
  by (rule sample_run[where ids = "[]" and toks = "replicate 100 [116]" and out = "[0]",
        OF _ _ _ _ _ _ _ _ _ _ assms])
    (simp_all add: mock_environment_def py_strip_def py_isspace_def BONJOUR_def)

lemma crlf_run:
  assumes "parse_args a = Parsed \<lparr>arg_input = [98, 46, 84, 88, 84], arg_language = LANG_AUTO,
           arg_compression = 30, arg_output = target\<rparr>"
  shows "main (crlf_environment sample_files) a =
    save_summary (crlf_environment sample_files)
      \<lparr>arg_input = [98, 46, 84, 88, 84], arg_language = LANG_AUTO, arg_compression = 30,
         arg_output = target\<rparr>
      [LanguageMsg [101, 110, 103, 108, 105, 115, 104] LANG_EN, CompressionMsg 30, ProgressMsg,
       BannerRule, BannerTitle, BannerRule, SummaryText [97, 10, 98]]
      [LoadTokenizer, LoadModel, EncodeInput 1024, Tokenize, Generate 30 21, Decode]
      [97, 10, 98]"
  by (rule sample_run[where ids = "[]" and toks = "replicate 100 [116]" and out = "[0]",
        OF _ _ _ _ _ _ _ _ _ _ assms])
    (simp_all add: crlf_environment_def mock_environment_def py_strip_def py_isspace_def
      BONJOUR_def)

lemma mock_shown:
  "main (mock_environment sample_files) [InputOpt [98, 46, 84, 88, 84]] =
    \<lparr>exit_code = 0,
       printed = [LanguageMsg [101, 110, 103, 108, 105, 115, 104] LANG_EN, CompressionMsg 30,
                  ProgressMsg, BannerRule, BannerTitle, BannerRule, SummaryText [88]],
       files_after = sample_files,
       events = [LoadTokenizer, LoadModel, EncodeInput 1024, Tokenize, Generate 30 21, Decode]\<rparr>"
  unfolding mock_run[OF parse_sample(1)] by (subst save_summary_skipped) simp_all

lemma mock_skipped:
  "main (mock_environment sample_files) [InputOpt [98, 46, 84, 88, 84], OutputOpt []] =
    \<lparr>exit_code = 0,
       printed = [LanguageMsg [101, 110, 103, 108, 105, 115, 104] LANG_EN, CompressionMsg 30,
                  ProgressMsg, BannerRule, BannerTitle, BannerRule, SummaryText [88]],
       files_after = sample_files,
       events = [LoadTokenizer, LoadModel, EncodeInput 1024, Tokenize, Generate 30 21, Decode]\<rparr>"
  unfolding mock_run[OF parse_sample(2)] by (subst save_summary_skipped) simp_all

lemma sample_free: "sample_files [111] \<noteq> Some OtherEntry"
  by (simp add: sample_files_def)

lemma mock_saved:
  "main (mock_environment sample_files) [InputOpt [98, 46, 84, 88, 84], OutputOpt [111]] =
    \<lparr>exit_code = 0,
       printed = [LanguageMsg [101, 110, 103, 108, 105, 115, 104] LANG_EN, CompressionMsg 30,
                  ProgressMsg, BannerRule, BannerTitle, BannerRule, SummaryText [88],
                  SavedMsg [111]],
       files_after = sample_files([111] \<mapsto> RegularFile [88]),
       events = [LoadTokenizer, LoadModel, EncodeInput 1024, Tokenize, Generate 30 21, Decode]\<rparr>"
  unfolding mock_run[OF parse_sample(2)]
  by (subst save_summary_written[where path = "[111]" and content = "[88]"])
    (simp_all add: write_newlines_lf utf8_encode_char_def sample_free)

lemma crlf_saved:
  "main (crlf_environment sample_files) [InputOpt [98, 46, 84, 88, 84], OutputOpt [111]] =
    \<lparr>exit_code = 0,
       printed = [LanguageMsg [101, 110, 103, 108, 105, 115, 104] LANG_EN, CompressionMsg 30,
                  ProgressMsg, BannerRule, BannerTitle, BannerRule, SummaryText [97, 10, 98],
                  SavedMsg [111]],
       files_after = sample_files([111] \<mapsto> RegularFile [97, 13, 10, 98]),
       events = [LoadTokenizer, LoadModel, EncodeInput 1024, Tokenize, Generate 30 21, Decode]\<rparr>"
  unfolding crlf_run[OF parse_sample(2)]
  by (subst save_summary_written[where path = "[111]" and content = "[97, 13, 10, 98]"])
    (simp_all add: write_newlines_def utf8_encode_char_def sample_free)

subsection \<open>Exit codes\<close>

lemma main_no_language_error: "UnsupportedLangMsg l \<notin> set (printed (main env a))"
proof (cases rule: main_cases[of a env])
  case (stopped args doc shown evs e)
  then show ?thesis by simp
next
  case (displayed args doc warned lang name evs summary)
  show ?thesis
  proof
    assume "UnsupportedLangMsg l \<in> set (printed (main env a))"
    from save_summary_adds[OF this[unfolded displayed(6)]] displayed(9)
    show False by auto
  qed
qed simp_all

lemma main_exit_usage: "exit_code (main env a) = 2 \<longleftrightarrow> parse_args a = UsageFailure"
proof (cases rule: main_cases[of a env])
  case (displayed args doc warned lang name evs summary)
  let ?shown = "warned @ [LanguageMsg name lang, CompressionMsg (arg_compression args),
      ProgressMsg, BannerRule, BannerTitle, BannerRule, SummaryText summary]"
  from save_summary_exit[of env args ?shown evs summary] displayed(1)
  show ?thesis unfolding displayed(6) by auto
qed simp_all

lemma main_exit_range:
  "exit_code (main env a) = 0 \<or> exit_code (main env a) = 1 \<or> exit_code (main env a) = 2"
proof (cases rule: main_cases[of a env])
  case (displayed args doc warned lang name evs summary)
  let ?shown = "warned @ [LanguageMsg name lang, CompressionMsg (arg_compression args),
      ProgressMsg, BannerRule, BannerTitle, BannerRule, SummaryText summary]"
  from save_summary_exit[of env args ?shown evs summary] displayed(1)
  show ?thesis unfolding displayed(6) by auto
qed simp_all

lemma main_exit_zero:
  assumes "exit_code (main env a) = 0"
  shows "(parse_args a = HelpRequested \<and> printed (main env a) = [HelpText])
    \<or> (\<exists>summary. SummaryText summary \<in> set (printed (main env a)))"
proof (cases rule: main_cases[of a env])
  case help_run
  with assms show ?thesis by (simp split: if_splits)
next
  case (displayed args doc warned lang name evs summary)
  have "SummaryText summary \<in> set (printed (main env a))"
    unfolding displayed(6) by (rule save_summary_keeps) simp
  then show ?thesis by blast
qed (use assms in simp_all)

lemma main_success:
  assumes "parse_args a = Parsed args" "load_text env (arg_input args) = Inr doc"
    and "py_strip doc \<noteq> []" "\<forall>line. stdout_encodes env line"
    and "snd (resolve_language env args doc) = Inr lang"
    and "summarize_text env doc lang (arg_compression args) 1024 = (evs, Inr summary)"
    and "\<forall>path. arg_output args = Some path \<and> path \<noteq> [] \<longrightarrow>
           files env path \<noteq> Some OtherEntry \<and> cannot_open env path = None
           \<and> utf8_encode (write_newlines (linesep env) summary) \<noteq> None"
  shows "exit_code (main env a) = 0" "SummaryText summary \<in> set (printed (main env a))"
proof -
  obtain warned where r: "resolve_language env args doc = (warned, Inr lang)"
    using assms(5) by (cases "resolve_language env args doc") simp
  obtain name where n: "LANG_MAP lang = Some name"
    using LANG_MAP_supported[OF resolve_language_supported(1)[OF assms(1) r]] by blast
  note enc = assms(4)[rule_format]
  let ?shown = "warned @ [LanguageMsg name lang, CompressionMsg (arg_compression args),
      ProgressMsg, BannerRule, BannerTitle, BannerRule, SummaryText summary]"
  have m: "main env a = save_summary env args ?shown evs summary"
    by (rule main_displayed[OF assms(1-3) r n enc enc enc assms(6) enc enc enc])
  show "SummaryText summary \<in> set (printed (main env a))"
    unfolding m by (rule save_summary_keeps) simp
  show "exit_code (main env a) = 0"
  proof (cases "arg_output args = None \<or> arg_output args = Some []")
    case True
    then show ?thesis unfolding m by (subst save_summary_skipped) simp_all
  next
    case False
    then obtain path where p: "arg_output args = Some path" "path \<noteq> []" by auto
    with assms(7) obtain content where ok: "files env path \<noteq> Some OtherEntry"
      "cannot_open env path = None"
      "utf8_encode (write_newlines (linesep env) summary) = Some content" by auto
    show ?thesis unfolding m save_summary_written[OF p ok] using enc by simp
  qed
qed




subsection \<open>Saving the summary\<close>

lemma main_not_displayed:
  assumes "\<forall>summary. SummaryText summary \<notin> set (printed (main env a))"
  shows "files_after (main env a) = files env
    \<and> (\<forall>p. SavedMsg p \<notin> set (printed (main env a)))"
proof (cases rule: main_cases[of a env])
  case (displayed args doc warned lang name evs summary)
  have "SummaryText summary \<in> set (printed (main env a))"
    unfolding displayed(6) by (rule save_summary_keeps) simp
  with assms show ?thesis by blast
qed simp_all

lemma main_no_output:
  assumes "parse_args a = Parsed args" "arg_output args = None \<or> arg_output args = Some []"
  shows "files_after (main env a) = files env
    \<and> (\<forall>p. SavedMsg p \<notin> set (printed (main env a)))"
proof (cases rule: main_cases[of a env])
  case (displayed args' doc warned lang name evs summary)
  have eq: "args' = args" using displayed(1) assms(1) by simp
  let ?shown = "warned @ [LanguageMsg name lang, CompressionMsg (arg_compression args),
      ProgressMsg, BannerRule, BannerTitle, BannerRule, SummaryText summary]"
  have "main env a =
      \<lparr>exit_code = 0, printed = ?shown, files_after = files env, events = evs\<rparr>"
    unfolding displayed(6) eq by (rule save_summary_skipped[OF assms(2)])
  then show ?thesis using displayed(8) by simp
qed simp_all

lemma main_output:
  assumes "parse_args a = Parsed args" "arg_output args = Some path" "path \<noteq> []"
    and "SummaryText summary \<in> set (printed (main env a))"
  shows "if files env path = Some OtherEntry \<or> cannot_open env path \<noteq> None
     then files_after (main env a) = files env \<and> exit_code (main env a) = 1
          \<and> (\<forall>p. SavedMsg p \<notin> set (printed (main env a)))
     else case utf8_encode (write_newlines (linesep env) summary) of
            None \<Rightarrow>
              files_after (main env a) = (files env)(path \<mapsto> RegularFile [])
              \<and> exit_code (main env a) = 1
              \<and> (\<forall>p. SavedMsg p \<notin> set (printed (main env a)))
          | Some content \<Rightarrow>
              files_after (main env a) = (files env)(path \<mapsto> RegularFile content)
              \<and> (linesep env = [10] \<longrightarrow> utf8_encode summary = Some content)
              \<and> (if stdout_encodes env (SavedMsg path)
                  then exit_code (main env a) = 0
                       \<and> last (printed (main env a)) = SavedMsg path
                  else exit_code (main env a) = 1
                       \<and> (\<forall>p. SavedMsg p \<notin> set (printed (main env a))))"
proof (cases rule: main_cases[of a env])
  case usage
  with assms(1) show ?thesis by simp
next
  case help_run
  with assms(1) show ?thesis by simp
next
  case (load_error args' e)
  with assms(4) show ?thesis by (simp split: if_splits)
next
  case (blank args' doc)
  with assms(4) show ?thesis by (simp split: if_splits)
next
  case (stopped args' doc shown evs e)
  with assms(4) show ?thesis by simp
next
  case (displayed args' doc warned lang name evs summary')
  have eq: "args' = args" using displayed(1) assms(1) by simp
  let ?shown = "warned @ [LanguageMsg name lang, CompressionMsg (arg_compression args),
      ProgressMsg, BannerRule, BannerTitle, BannerRule, SummaryText summary']"
  have m: "main env a = save_summary env args ?shown evs summary'"
    unfolding displayed(6) eq ..
  have "SummaryText summary \<in> set ?shown"
    using save_summary_adds[OF assms(4)[unfolded m]] by auto
  then have s: "summary' = summary" using displayed(7) by auto
  have nosaved: "\<forall>p. SavedMsg p \<notin> set ?shown" using displayed(8) by simp
  note c = save_summary_cases[OF assms(2,3), of env ?shown evs summary', folded m]
  show ?thesis
  proof (cases "files env path = Some OtherEntry \<or> cannot_open env path \<noteq> None")
    case True
    with c obtain e where "main env a =
        \<lparr>exit_code = 1, printed = ?shown @ [Traceback e], files_after = files env,
           events = evs\<rparr>" by (auto simp only: if_True)
    then show ?thesis using True nosaved by simp
  next
    case False
    show ?thesis
    proof (cases "utf8_encode (write_newlines (linesep env) summary')")
      case None
      with c False have "main env a =
          \<lparr>exit_code = 1, printed = ?shown @ [Traceback UnicodeEncodeError],
             files_after = (files env)(path \<mapsto> RegularFile []), events = evs\<rparr>" by simp
      then show ?thesis using False None nosaved s by simp
    next
      case (Some content)
      with c False have w: "main env a =
          \<lparr>exit_code = (if stdout_encodes env (SavedMsg path) then 0 else 1),
             printed = ?shown @ (if stdout_encodes env (SavedMsg path) then [SavedMsg path]
                                else [Traceback UnicodeEncodeError]),
             files_after = (files env)(path \<mapsto> RegularFile content), events = evs\<rparr>"
        by simp
      have lf: "linesep env = [10] \<longrightarrow> utf8_encode summary = Some content"
        using Some s by (auto simp: write_newlines_lf)
      show ?thesis using False Some[unfolded s] lf nosaved by (simp add: w)
    qed
  qed
qed

text \<open>
  Claim C8, as amended. The driver writes a file only after it has displayed the summary,
  and only when the output path supplied with the last \<open>--output\<close> is not empty. It
  then writes the summary to that path as UTF-8, each line feed written as the platform's
  line separator (so verbatim, with no character added or removed, where the separator is
  LF), replacing whatever file was there and changing no other; the confirmation is the
  last line it prints and the exit code is 0, or, where the standard output cannot encode
  the confirmation, the file is written and the exit code is 1. Where the path is a
  directory or the operating system refuses to open the file, nothing is written; where the
  summary cannot be encoded, the file is left empty; both end with exit code 1 and without
  confirmation. With no output path, with an empty one, and on every run that ends before
  the summary is displayed (a usage error, the help, a failed load, a blank text, an
  exception), no file is written and no confirmation is printed.
\<close>

theorem main_saves_summary:
  "(\<forall>args path summary.
      parse_args a = Parsed args \<and> arg_output args = Some path \<and> path \<noteq> []
      \<and> SummaryText summary \<in> set (printed (main env a)) \<longrightarrow>
      (if files env path = Some OtherEntry \<or> cannot_open env path \<noteq> None
       then files_after (main env a) = files env \<and> exit_code (main env a) = 1
            \<and> (\<forall>p. SavedMsg p \<notin> set (printed (main env a)))
       else case utf8_encode (write_newlines (linesep env) summary) of
              None \<Rightarrow>
                files_after (main env a) = (files env)(path \<mapsto> RegularFile [])
                \<and> exit_code (main env a) = 1
                \<and> (\<forall>p. SavedMsg p \<notin> set (printed (main env a)))
            | Some content \<Rightarrow>
                files_after (main env a) = (files env)(path \<mapsto> RegularFile content)
                \<and> (linesep env = [10] \<longrightarrow> utf8_encode summary = Some content)
                \<and> (if stdout_encodes env (SavedMsg path)
                    then exit_code (main env a) = 0
                         \<and> last (printed (main env a)) = SavedMsg path
                    else exit_code (main env a) = 1
                         \<and> (\<forall>p. SavedMsg p \<notin> set (printed (main env a))))))
    \<and> (\<forall>args. parse_args a = Parsed args
          \<and> (arg_output args = None \<or> arg_output args = Some []) \<longrightarrow>
        files_after (main env a) = files env
        \<and> (\<forall>p. SavedMsg p \<notin> set (printed (main env a))))
    \<and> ((\<forall>summary. SummaryText summary \<notin> set (printed (main env a))) \<longrightarrow>
        files_after (main env a) = files env
        \<and> (\<forall>p. SavedMsg p \<notin> set (printed (main env a))))
    \<and> (\<forall>args. parse_args a = Parsed args \<longrightarrow>
        (arg_output args = None \<longleftrightarrow> (\<forall>p. OutputOpt p \<notin> set a))
        \<and> (\<forall>p. arg_output args = Some p \<longrightarrow> OutputOpt p \<in> set a))"
proof (intro conjI allI impI)
  fix args path summary
  assume "parse_args a = Parsed args \<and> arg_output args = Some path \<and> path \<noteq> []
      \<and> SummaryText summary \<in> set (printed (main env a))"
  then have "parse_args a = Parsed args" "arg_output args = Some path" "path \<noteq> []"
    "SummaryText summary \<in> set (printed (main env a))" by simp_all
  then show "if files env path = Some OtherEntry \<or> cannot_open env path \<noteq> None
     then files_after (main env a) = files env \<and> exit_code (main env a) = 1
          \<and> (\<forall>p. SavedMsg p \<notin> set (printed (main env a)))
     else case utf8_encode (write_newlines (linesep env) summary) of
            None \<Rightarrow>
              files_after (main env a) = (files env)(path \<mapsto> RegularFile [])
              \<and> exit_code (main env a) = 1
              \<and> (\<forall>p. SavedMsg p \<notin> set (printed (main env a)))
          | Some content \<Rightarrow>
              files_after (main env a) = (files env)(path \<mapsto> RegularFile content)
              \<and> (linesep env = [10] \<longrightarrow> utf8_encode summary = Some content)
              \<and> (if stdout_encodes env (SavedMsg path)
                  then exit_code (main env a) = 0
                       \<and> last (printed (main env a)) = SavedMsg path
                  else exit_code (main env a) = 1
                       \<and> (\<forall>p. SavedMsg p \<notin> set (printed (main env a))))"
    by (rule main_output)
next
  fix args
  assume h: "parse_args a = Parsed args
      \<and> (arg_output args = None \<or> arg_output args = Some [])"
  from main_no_output[OF conjunct1[OF h] conjunct2[OF h], of env]
  show "files_after (main env a) = files env"
    and "\<And>p. SavedMsg p \<notin> set (printed (main env a))" by simp_all
next
  assume h: "\<forall>summary. SummaryText summary \<notin> set (printed (main env a))"
  from main_not_displayed[OF h]
  show "files_after (main env a) = files env"
    and "\<And>p. SavedMsg p \<notin> set (printed (main env a))" by simp_all
next
  fix args assume p: "parse_args a = Parsed args"
  show "arg_output args = None \<longleftrightarrow> (\<forall>p. OutputOpt p \<notin> set a)"
    by (rule parse_args_Parsed(3)[OF p])
  fix q assume "arg_output args = Some q"
  then show "OutputOpt q \<in> set a" by (rule parse_args_Parsed(4)[OF p])
qed

theorem main_saves_summary_witness:
  "parse_args [InputOpt [98, 46, 84, 88, 84], OutputOpt [111]] =
      Parsed \<lparr>arg_input = [98, 46, 84, 88, 84], arg_language = LANG_AUTO, arg_compression = 30,
               arg_output = Some [111]\<rparr>
    \<and> SummaryText [88] \<in> set (printed (main (mock_environment sample_files)
          [InputOpt [98, 46, 84, 88, 84], OutputOpt [111]]))
    \<and> files_after (main (mock_environment sample_files)
          [InputOpt [98, 46, 84, 88, 84], OutputOpt [111]])
        = sample_files([111] \<mapsto> RegularFile [88])
    \<and> exit_code (main (mock_environment sample_files)
          [InputOpt [98, 46, 84, 88, 84], OutputOpt [111]]) = 0
    \<and> last (printed (main (mock_environment sample_files)
          [InputOpt [98, 46, 84, 88, 84], OutputOpt [111]])) = SavedMsg [111]
    \<and> files_after (main (mock_environment sample_files) [InputOpt [98, 46, 84, 88, 84]])
        = sample_files"
proof -
  let ?E = "mock_environment sample_files"
  let ?a = "[InputOpt [98, 46, 84, 88, 84], OutputOpt [111]]"
  let ?args = "\<lparr>arg_input = [98, 46, 84, 88, 84], arg_language = LANG_AUTO,
      arg_compression = 30, arg_output = Some [111]\<rparr>"
  have p: "parse_args ?a = Parsed ?args" by (rule parse_sample(2))
  have s: "SummaryText [88] \<in> set (printed (main ?E ?a))" by (simp add: mock_saved)
  have h: "parse_args ?a = Parsed ?args \<and> arg_output ?args = Some [111] \<and> [111] \<noteq> []
      \<and> SummaryText [88] \<in> set (printed (main ?E ?a))"
    using p s by simp
  have e: "utf8_encode (write_newlines (linesep ?E) [88]) = Some [88]"
    by (simp add: write_newlines_lf utf8_encode_char_def)
  have f: "\<not> (files ?E [111] = Some OtherEntry \<or> cannot_open ?E [111] \<noteq> None)"
    by (simp add: sample_free)
  from main_saves_summary[of ?a ?E] h
  have "if files ?E [111] = Some OtherEntry \<or> cannot_open ?E [111] \<noteq> None
     then files_after (main ?E ?a) = files ?E \<and> exit_code (main ?E ?a) = 1
          \<and> (\<forall>p. SavedMsg p \<notin> set (printed (main ?E ?a)))
     else case utf8_encode (write_newlines (linesep ?E) [88]) of
            None \<Rightarrow>
              files_after (main ?E ?a) = (files ?E)([111] \<mapsto> RegularFile [])
              \<and> exit_code (main ?E ?a) = 1
              \<and> (\<forall>p. SavedMsg p \<notin> set (printed (main ?E ?a)))
          | Some content \<Rightarrow>
              files_after (main ?E ?a) = (files ?E)([111] \<mapsto> RegularFile content)
              \<and> (linesep ?E = [10] \<longrightarrow> utf8_encode [88] = Some content)
              \<and> (if stdout_encodes ?E (SavedMsg [111])
                  then exit_code (main ?E ?a) = 0
                       \<and> last (printed (main ?E ?a)) = SavedMsg [111]
                  else exit_code (main ?E ?a) = 1
                       \<and> (\<forall>p. SavedMsg p \<notin> set (printed (main ?E ?a))))"
    by blast
  then have w: "files_after (main ?E ?a) = sample_files([111] \<mapsto> RegularFile [88])
      \<and> exit_code (main ?E ?a) = 0 \<and> last (printed (main ?E ?a)) = SavedMsg [111]"
    unfolding e using f by simp
  let ?b = "[InputOpt [98, 46, 84, 88, 84]]"
  let ?bargs = "\<lparr>arg_input = [98, 46, 84, 88, 84], arg_language = LANG_AUTO,
      arg_compression = 30, arg_output = None\<rparr>"
  have "parse_args ?b = Parsed ?bargs \<and> (arg_output ?bargs = None \<or> arg_output ?bargs = Some [])"
    by (simp add: parse_sample)
  with main_saves_summary[of ?b ?E] have "files_after (main ?E ?b) = files ?E" by blast
  then have n: "files_after (main ?E ?b) = sample_files" by simp
  from p s w n show ?thesis by simp
qed

theorem main_output_counterexample:
  "SummaryText [97, 10, 98] \<in> set (printed (main (crlf_environment sample_files)
        [InputOpt [98, 46, 84, 88, 84], OutputOpt [111]]))
    \<and> files_after (main (crlf_environment sample_files)
        [InputOpt [98, 46, 84, 88, 84], OutputOpt [111]]) [111]
        = Some (RegularFile [97, 13, 10, 98])
    \<and> utf8_encode [97, 10, 98] = Some [97, 10, 98]
    \<and> main (mock_environment sample_files)
        [InputOpt [98, 46, 84, 88, 84], OutputOpt [111], HelpFlag] =
        \<lparr>exit_code = 0, printed = [HelpText], files_after = sample_files, events = []\<rparr>
    \<and> exit_code (main (mock_environment sample_files)
        [InputOpt [98, 46, 84, 88, 84], OutputOpt []]) = 0
    \<and> files_after (main (mock_environment sample_files)
        [InputOpt [98, 46, 84, 88, 84], OutputOpt []]) = sample_files"
proof -
  have h: "main (mock_environment sample_files)
        [InputOpt [98, 46, 84, 88, 84], OutputOpt [111], HelpFlag] =
        \<lparr>exit_code = 0, printed = [HelpText], files_after = sample_files, events = []\<rparr>"
    using main_help[OF parse_sample(3), where env = "mock_environment sample_files"] by simp
  show ?thesis by (simp add: crlf_saved mock_skipped h utf8_encode_char_def)
qed

end
